theory Spec2Isabelle
  imports Complex_Main "HOL-Library.Multiset"
begin

section \<open>Tuples and the ordering primitives of kdtools.h\<close>

text \<open>
  A tuple of arity \<open>K\<close> (the header's \<open>tuple_size<TupleType>::value\<close>) is a list of
  \<open>K\<close> components; \<open>get<I>(x)\<close> is the component at index \<open>I\<close>. The header's template
  parameters \<open>I\<close>, \<open>N\<close> and the arity are ordinary arguments here. A random-access
  iterator into the underlying storage \<open>S\<close> is an index; \<open>distance(first, last)\<close> is
  \<open>last - first\<close> and \<open>next(it)\<close> is \<open>it + 1\<close>; the variable \<open>last\<close> is written \<open>lst\<close>.
  A pair of iterators is a range, so \<open>first\<close> is not after \<open>last\<close>; the subtraction of
  natural numbers gives a reversed pair the distance 0. The type \<open>double\<close> is idealised
  as \<open>real\<close>: rounding, underflow, infinities and NaN are outside the model, and what is
  proved about distances is proved for exact arithmetic.
\<close>

type_synonym 'a tuple = "'a list"

definition get :: "nat \<Rightarrow> 'a tuple \<Rightarrow> 'a" where
  "get I x = x ! I"

definition midpos :: "nat \<Rightarrow> nat \<Rightarrow> nat" where
  "midpos first lst = first + (lst - first) div 2"

definition less_nth :: "nat \<Rightarrow> 'a::linorder tuple \<Rightarrow> 'a tuple \<Rightarrow> bool" where
  "less_nth I lhs rhs = (get I lhs < get I rhs)"

definition incr_wrap :: "nat \<Rightarrow> nat \<Rightarrow> nat" where
  "incr_wrap K I = (I + 1) mod K"

definition is_not_last :: "nat \<Rightarrow> nat \<Rightarrow> bool" where
  "is_not_last K I = (I \<noteq> K - 1)"

definition is_last :: "nat \<Rightarrow> nat \<Rightarrow> bool" where
  "is_last K I = (I = K - 1)"

text \<open>
  \<open>kd_less<I, N>\<close>: the two \<open>enable_if\<close> overloads are the two branches. The template
  is only ever instantiated with \<open>N < K\<close> (it starts at \<open>N = 0\<close> and stops at
  \<open>N = K - 1\<close>); the guard \<open>N < K\<close> gives the remaining, never instantiated, arguments
  the value of the last overload.
\<close>

function kd_less :: "nat \<Rightarrow> nat \<Rightarrow> nat \<Rightarrow> 'a::linorder tuple \<Rightarrow> 'a tuple \<Rightarrow> bool" where
  "kd_less K I N lhs rhs =
     (if is_not_last K N \<and> N < K then
        (if get I lhs = get I rhs
         then kd_less K (incr_wrap K I) (N + 1) lhs rhs
         else get I lhs < get I rhs)
      else get I lhs < get I rhs)"
  by pat_completeness auto
termination
  by (relation "measure (\<lambda>(K, I, N, lhs, rhs). K - N)") auto

declare kd_less.simps [simp del]

text \<open>
  The structs \<open>all_less_<I>\<close>, \<open>none_less_<I>\<close> and \<open>sum_of_squares_<I>\<close> are named
  \<open>all_less_rec\<close>, \<open>none_less_rec\<close> and \<open>sum_of_squares_rec\<close>; \<open>std::pow(x, 2)\<close> is the
  square.
\<close>

function all_less_rec :: "nat \<Rightarrow> nat \<Rightarrow> 'a::linorder tuple \<Rightarrow> 'a tuple \<Rightarrow> bool" where
  "all_less_rec K I lhs rhs =
     (if is_not_last K I \<and> I < K
      then get I lhs < get I rhs \<and> all_less_rec K (I + 1) lhs rhs
      else get I lhs < get I rhs)"
  by pat_completeness auto
termination
  by (relation "measure (\<lambda>(K, I, lhs, rhs). K - I)") auto

declare all_less_rec.simps [simp del]

definition all_less :: "nat \<Rightarrow> 'a::linorder tuple \<Rightarrow> 'a tuple \<Rightarrow> bool" where
  "all_less K lhs rhs = all_less_rec K 0 lhs rhs"

function none_less_rec :: "nat \<Rightarrow> nat \<Rightarrow> 'a::linorder tuple \<Rightarrow> 'a tuple \<Rightarrow> bool" where
  "none_less_rec K I lhs rhs =
     (if is_not_last K I \<and> I < K
      then get I lhs \<ge> get I rhs \<and> none_less_rec K (I + 1) lhs rhs
      else get I lhs \<ge> get I rhs)"
  by pat_completeness auto
termination
  by (relation "measure (\<lambda>(K, I, lhs, rhs). K - I)") auto

declare none_less_rec.simps [simp del]

definition none_less :: "nat \<Rightarrow> 'a::linorder tuple \<Rightarrow> 'a tuple \<Rightarrow> bool" where
  "none_less K lhs rhs = none_less_rec K 0 lhs rhs"

function sum_of_squares_rec :: "nat \<Rightarrow> nat \<Rightarrow> real tuple \<Rightarrow> real tuple \<Rightarrow> real" where
  "sum_of_squares_rec K I lhs rhs =
     (if is_not_last K I \<and> I < K
      then (get I lhs - get I rhs)\<^sup>2 + sum_of_squares_rec K (I + 1) lhs rhs
      else (get I lhs - get I rhs)\<^sup>2)"
  by pat_completeness auto
termination
  by (relation "measure (\<lambda>(K, I, lhs, rhs). K - I)") auto

declare sum_of_squares_rec.simps [simp del]

definition sum_of_squares :: "nat \<Rightarrow> real tuple \<Rightarrow> real tuple \<Rightarrow> real" where
  "sum_of_squares K lhs rhs = sum_of_squares_rec K 0 lhs rhs"

definition l2dist :: "nat \<Rightarrow> real tuple \<Rightarrow> real tuple \<Rightarrow> real" where
  "l2dist K lhs rhs = sqrt (sum_of_squares K lhs rhs)"

section \<open>Reading through an iterator\<close>

text \<open>
  \<open>*it\<close> reads the storage at index \<open>it\<close>. Reading at or past the end of the storage is
  undefined behaviour in C++; here it is the result \<open>None\<close>, which every caller
  propagates.
\<close>

definition deref :: "'a list \<Rightarrow> nat \<Rightarrow> 'a option" where
  "deref S it = (if it < length S then Some (S ! it) else None)"

text \<open>
  \<open>std::partition_point(first, last, pred)\<close>: the bisection loop that the standard
  library implementations run. On a range partitioned by \<open>pred\<close> it is the first
  position whose element fails \<open>pred\<close>.
\<close>

function partition_point_loop :: "'a list \<Rightarrow> ('a \<Rightarrow> bool) \<Rightarrow> nat \<Rightarrow> nat \<Rightarrow> nat option" where
  "partition_point_loop S pred first len =
     (if len > 0 then
        (let half = len div 2; middle = first + half in
         case deref S middle of
           None \<Rightarrow> None
         | Some x \<Rightarrow>
             if pred x then partition_point_loop S pred (middle + 1) (len - half - 1)
             else partition_point_loop S pred first half)
      else Some first)"
  by pat_completeness auto
termination
  by (relation "measure (\<lambda>(S, pred, first, len). len)") auto

declare partition_point_loop.simps [simp del]

definition partition_point :: "'a list \<Rightarrow> nat \<Rightarrow> nat \<Rightarrow> ('a \<Rightarrow> bool) \<Rightarrow> nat option" where
  "partition_point S first lst pred = partition_point_loop S pred first (lst - first)"

definition find_pivot :: "nat \<Rightarrow> 'a::linorder tuple list \<Rightarrow> nat \<Rightarrow> nat \<Rightarrow> nat option" where
  "find_pivot I S first lst =
     (let pivot = midpos first lst in
      case deref S pivot of
        None \<Rightarrow> None
      | Some pv \<Rightarrow> partition_point S first pivot (\<lambda>x. less_nth I x pv))"

lemma partition_point_loop_bounds:
  "partition_point_loop S pred first len = Some r \<Longrightarrow> first \<le> r \<and> r \<le> first + len"
proof (induction S pred first len arbitrary: r rule: partition_point_loop.induct)
  case (1 S pred first len)
  show ?case
  proof (cases "len > 0")
    case False
    with "1.prems" show ?thesis
      by (simp add: partition_point_loop.simps)
  next
    case True
    from "1.prems" True obtain x where x: "deref S (first + len div 2) = Some x"
      by (subst (asm) partition_point_loop.simps) (auto simp: Let_def split: option.splits)
    show ?thesis
    proof (cases "pred x")
      case True
      with "1.prems" \<open>len > 0\<close> x
      have "partition_point_loop S pred (first + len div 2 + 1) (len - len div 2 - 1) = Some r"
        by (subst (asm) partition_point_loop.simps) (simp add: Let_def)
      from "1.IH"(1)[OF \<open>len > 0\<close> refl refl x True this] \<open>len > 0\<close>
      show ?thesis by auto
    next
      case False
      with "1.prems" \<open>len > 0\<close> x
      have "partition_point_loop S pred first (len div 2) = Some r"
        by (subst (asm) partition_point_loop.simps) (simp add: Let_def)
      from "1.IH"(2)[OF \<open>len > 0\<close> refl refl x False this]
      show ?thesis by auto
    qed
  qed
qed

lemma find_pivot_bounds:
  assumes "find_pivot I S first lst = Some p" and "lst - first > 1"
  shows "first \<le> p" and "p < lst"
proof -
  from assms(1) obtain pv where
    pp: "partition_point S first (midpos first lst) (\<lambda>x. less_nth I x pv) = Some p"
    by (auto simp: find_pivot_def Let_def split: option.splits)
  from partition_point_loop_bounds[OF pp[unfolded partition_point_def]]
  have "first \<le> p" and "p \<le> first + (midpos first lst - first)" by auto
  with assms(2) show "first \<le> p" and "p < lst"
    by (auto simp: midpos_def)
qed

section \<open>Nearest neighbour\<close>

function kd_nearest_neighbor ::
  "nat \<Rightarrow> nat \<Rightarrow> real tuple list \<Rightarrow> nat \<Rightarrow> nat \<Rightarrow> real tuple \<Rightarrow> nat option" where
  "kd_nearest_neighbor K I S first lst v =
     (if lst - first > 1 then
        (case find_pivot I S first lst of
           None \<Rightarrow> None
         | Some pivot \<Rightarrow>
        (case deref S pivot of
           None \<Rightarrow> None
         | Some pv \<Rightarrow>
        (let search_left = less_nth I v pv in
        (case (if search_left
               then kd_nearest_neighbor K (incr_wrap K I) S first pivot v
               else kd_nearest_neighbor K (incr_wrap K I) S (pivot + 1) lst v) of
           None \<Rightarrow> None
         | Some search0 \<Rightarrow>
        (case (if search0 = lst then Some (pivot, l2dist K pv v)
               else (case deref S search0 of
                       None \<Rightarrow> None
                     | Some sv \<Rightarrow>
                         if l2dist K sv v < l2dist K pv v then Some (search0, l2dist K sv v)
                         else Some (pivot, l2dist K pv v))) of
           None \<Rightarrow> None
         | Some (search, min_dist) \<Rightarrow>
             if \<bar>get I v - get I pv\<bar> < min_dist then
               (case (if search_left
                      then kd_nearest_neighbor K (incr_wrap K I) S (pivot + 1) lst v
                      else kd_nearest_neighbor K (incr_wrap K I) S first pivot v) of
                  None \<Rightarrow> None
                | Some s2 \<Rightarrow>
                    if s2 \<noteq> lst then
                      (case deref S s2 of
                         None \<Rightarrow> None
                       | Some s2v \<Rightarrow> Some (if l2dist K s2v v < min_dist then s2 else search))
                    else Some search)
             else Some search)))))
      else Some first)"
  by pat_completeness auto
termination
  by (relation "measure (\<lambda>(K, I, S, first, lst, v). lst - first)")
     (auto dest: find_pivot_bounds)

declare kd_nearest_neighbor.simps [simp del]

text \<open>
  The overload with \<open>eps\<close>. Its recursive calls pass three arguments, so they resolve
  to the overload without \<open>eps\<close>.
\<close>

definition kd_nearest_neighbor_eps ::
  "nat \<Rightarrow> nat \<Rightarrow> real tuple list \<Rightarrow> nat \<Rightarrow> nat \<Rightarrow> real tuple \<Rightarrow> real \<Rightarrow> nat option" where
  "kd_nearest_neighbor_eps K I S first lst v eps =
     (if lst - first > 1 then
        (case find_pivot I S first lst of
           None \<Rightarrow> None
         | Some pivot \<Rightarrow>
        (case deref S pivot of
           None \<Rightarrow> None
         | Some pv \<Rightarrow>
        if l2dist K pv v < eps then Some pivot
        else
        (let search_left = less_nth I v pv in
        (case (if search_left
               then kd_nearest_neighbor K (incr_wrap K I) S first pivot v
               else kd_nearest_neighbor K (incr_wrap K I) S (pivot + 1) lst v) of
           None \<Rightarrow> None
         | Some search0 \<Rightarrow>
        (case (if search0 = lst then Some (False, pivot, l2dist K pv v)
               else (case deref S search0 of
                       None \<Rightarrow> None
                     | Some sv \<Rightarrow>
                         if l2dist K sv v < eps then Some (True, search0, l2dist K pv v)
                         else if l2dist K sv v < l2dist K pv v
                         then Some (False, search0, l2dist K sv v)
                         else Some (False, pivot, l2dist K pv v))) of
           None \<Rightarrow> None
         | Some (returned, search, min_dist) \<Rightarrow>
             if returned then Some search
             else if \<bar>get I v - get I pv\<bar> < min_dist - eps then
               (case (if search_left
                      then kd_nearest_neighbor K (incr_wrap K I) S (pivot + 1) lst v
                      else kd_nearest_neighbor K (incr_wrap K I) S first pivot v) of
                  None \<Rightarrow> None
                | Some s2 \<Rightarrow>
                    if s2 \<noteq> lst then
                      (case deref S s2 of
                         None \<Rightarrow> None
                       | Some s2v \<Rightarrow> Some (if l2dist K s2v v < min_dist then s2 else search))
                    else Some search)
             else Some search)))))
      else Some first)"

section \<open>Lower and upper bound\<close>

function kd_lower_bound ::
  "nat \<Rightarrow> nat \<Rightarrow> 'a::linorder tuple list \<Rightarrow> nat \<Rightarrow> nat \<Rightarrow> 'a tuple \<Rightarrow> nat option" where
  "kd_lower_bound K I S first lst v =
     (if lst - first > 1 then
        (case find_pivot I S first lst of
           None \<Rightarrow> None
         | Some pivot \<Rightarrow>
        (case deref S pivot of
           None \<Rightarrow> None
         | Some pv \<Rightarrow>
             if none_less K pv v then kd_lower_bound K (incr_wrap K I) S first pivot v
             else if all_less K pv v then kd_lower_bound K (incr_wrap K I) S (pivot + 1) lst v
             else
               (case kd_lower_bound K (incr_wrap K I) S first pivot v of
                  None \<Rightarrow> None
                | Some it \<Rightarrow>
               (case deref S it of
                  None \<Rightarrow> None
                | Some x \<Rightarrow>
                    if none_less K x v then Some it
                    else
                      (case kd_lower_bound K (incr_wrap K I) S (pivot + 1) lst v of
                         None \<Rightarrow> None
                       | Some it2 \<Rightarrow>
                      (case deref S it2 of
                         None \<Rightarrow> None
                       | Some y \<Rightarrow> if none_less K y v then Some it2 else Some lst))))))
      else
        (case deref S first of
           None \<Rightarrow> None
         | Some x \<Rightarrow> if none_less K x v then Some first else Some lst))"
  by pat_completeness auto
termination
  by (relation "measure (\<lambda>(K, I, S, first, lst, v). lst - first)")
     (auto dest: find_pivot_bounds)

declare kd_lower_bound.simps [simp del]

function kd_upper_bound ::
  "nat \<Rightarrow> nat \<Rightarrow> 'a::linorder tuple list \<Rightarrow> nat \<Rightarrow> nat \<Rightarrow> 'a tuple \<Rightarrow> nat option" where
  "kd_upper_bound K I S first lst v =
     (if lst - first > 1 then
        (case find_pivot I S first lst of
           None \<Rightarrow> None
         | Some pivot \<Rightarrow>
        (case deref S pivot of
           None \<Rightarrow> None
         | Some pv \<Rightarrow>
             if all_less K v pv then kd_upper_bound K (incr_wrap K I) S first pivot v
             else if none_less K v pv then kd_upper_bound K (incr_wrap K I) S (pivot + 1) lst v
             else
               (case kd_upper_bound K (incr_wrap K I) S first pivot v of
                  None \<Rightarrow> None
                | Some it \<Rightarrow>
               (case deref S it of
                  None \<Rightarrow> None
                | Some x \<Rightarrow>
                    if all_less K v x then Some it
                    else
                      (case kd_upper_bound K (incr_wrap K I) S (pivot + 1) lst v of
                         None \<Rightarrow> None
                       | Some it2 \<Rightarrow>
                      (case deref S it2 of
                         None \<Rightarrow> None
                       | Some y \<Rightarrow> if all_less K v y then Some it2 else Some lst))))))
      else
        (case deref S first of
           None \<Rightarrow> None
         | Some x \<Rightarrow> if all_less K v x then Some first else Some lst))"
  by pat_completeness auto
termination
  by (relation "measure (\<lambda>(K, I, S, first, lst, v). lst - first)")
     (auto dest: find_pivot_bounds)

declare kd_upper_bound.simps [simp del]

text \<open>
  \<open>kd_binary_search\<close>: \<open>first != last && none_less(value, *first)\<close> reads \<open>*first\<close> only
  when the position is not \<open>last\<close>.
\<close>

definition kd_binary_search ::
  "nat \<Rightarrow> 'a::linorder tuple list \<Rightarrow> nat \<Rightarrow> nat \<Rightarrow> 'a tuple \<Rightarrow> bool option" where
  "kd_binary_search K S first lst v =
     (case kd_lower_bound K 0 S first lst v of
        None \<Rightarrow> None
      | Some p \<Rightarrow>
          if p \<noteq> lst then
            (case deref S p of None \<Rightarrow> None | Some x \<Rightarrow> Some (none_less K v x))
          else Some False)"

section \<open>Range query\<close>

definition contains :: "nat \<Rightarrow> 'a::linorder tuple \<Rightarrow> 'a tuple \<Rightarrow> 'a tuple \<Rightarrow> bool" where
  "contains K v lower upper = (none_less K v lower \<and> all_less K v upper)"

text \<open>
  The output iterator is a sink that appends (a \<open>back_inserter\<close>): the result is the
  list of the emitted elements, in the order of emission. In \<open>switch\<close>, \<open>case 1\<close> falls
  through to \<open>case 0\<close>, which returns.
\<close>

function kd_range_query ::
  "nat \<Rightarrow> nat \<Rightarrow> 'a::linorder tuple list \<Rightarrow> nat \<Rightarrow> nat \<Rightarrow> 'a tuple \<Rightarrow> 'a tuple
     \<Rightarrow> 'a tuple list option" where
  "kd_range_query K I S first lst lower upper =
     (if lst - first = 1 then
        (case deref S first of
           None \<Rightarrow> None
         | Some x \<Rightarrow> Some (if contains K x lower upper then [x] else []))
      else if lst - first = 0 then Some []
      else
        (case find_pivot I S first lst of
           None \<Rightarrow> None
         | Some pivot \<Rightarrow>
        (case deref S pivot of
           None \<Rightarrow> None
         | Some pv \<Rightarrow>
        (case (if \<not> less_nth I pv lower
               then kd_range_query K (incr_wrap K I) S first pivot lower upper
               else Some []) of
           None \<Rightarrow> None
         | Some out_left \<Rightarrow>
        (case (if less_nth I pv upper
               then kd_range_query K (incr_wrap K I) S (pivot + 1) lst lower upper
               else Some []) of
           None \<Rightarrow> None
         | Some out_right \<Rightarrow>
             Some ((if contains K pv lower upper then [pv] else []) @ out_left @ out_right))))))"
  by pat_completeness auto
termination
  by (relation "measure (\<lambda>(K, I, S, first, lst, lower, upper). lst - first)")
     (auto dest: find_pivot_bounds)

declare kd_range_query.simps [simp del]

section \<open>The bounded best-queue and k nearest neighbours\<close>

text \<open>
  \<open>std::priority_queue<pair<Key, Iter>, vector<...>, less_nth<0>>\<close> is a list of the
  pairs it holds: \<open>emplace\<close> appends, \<open>top\<close> is an element that the comparison
  \<open>less_nth<0>\<close> (on the keys) puts below no other, and \<open>pop\<close> removes it. Which of
  several elements with the largest key is on top is left open by the standard; here it
  is the one that was inserted first.
\<close>

fun pq_top :: "(real \<times> nat) list \<Rightarrow> real \<times> nat" where
  "pq_top [x] = x"
| "pq_top (x # y # ys) = (let t = pq_top (y # ys) in if fst x < fst t then t else x)"

definition pq_pop :: "(real \<times> nat) list \<Rightarrow> (real \<times> nat) list" where
  "pq_pop qs = remove1 (pq_top qs) qs"

record n_best =
  m_n :: nat
  q :: "(real \<times> nat) list"

text \<open>\<open>numeric_limits<double>::max()\<close>, the largest finite \<open>double\<close>.\<close>

definition numeric_limits_max :: real where
  "numeric_limits_max = (2 - 1 / 2 ^ 52) * 2 ^ 1023"

definition n_best_init :: "nat \<Rightarrow> n_best" where
  "n_best_init n = \<lparr>m_n = n, q = []\<rparr>"

definition max_key :: "n_best \<Rightarrow> real" where
  "max_key nb = (if q nb = [] then numeric_limits_max else fst (pq_top (q nb)))"

definition add :: "real \<Rightarrow> nat \<Rightarrow> n_best \<Rightarrow> n_best" where
  "add d it nb =
     (let q1 = q nb @ [(d, it)]
      in nb\<lparr>q := (if length q1 > m_n nb then pq_pop q1 else q1)\<rparr>)"

lemma pq_top_in: "qs \<noteq> [] \<Longrightarrow> pq_top qs \<in> set qs"
  by (induction qs rule: pq_top.induct) (auto simp: Let_def)

lemma length_pq_pop: "qs \<noteq> [] \<Longrightarrow> length (pq_pop qs) < length qs"
proof -
  assume ne: "qs \<noteq> []"
  then have "length (remove1 (pq_top qs) qs) = length qs - 1"
    by (simp add: length_remove1 pq_top_in)
  with ne show ?thesis
    by (cases qs) (simp_all add: pq_pop_def)
qed

function copy_loop :: "'a list \<Rightarrow> (real \<times> nat) list \<Rightarrow> 'a list option" where
  "copy_loop S qs =
     (if qs \<noteq> [] then
        (case deref S (snd (pq_top qs)) of
           None \<Rightarrow> None
         | Some x \<Rightarrow>
             (case copy_loop S (pq_pop qs) of
                None \<Rightarrow> None
              | Some out \<Rightarrow> Some (x # out)))
      else Some [])"
  by pat_completeness auto
termination
  by (relation "measure (\<lambda>(S, qs). length qs)") (auto simp: length_pq_pop)

declare copy_loop.simps [simp del]

definition copy :: "'a list \<Rightarrow> n_best \<Rightarrow> 'a list option" where
  "copy S nb = copy_loop S (q nb)"

function knn ::
  "nat \<Rightarrow> nat \<Rightarrow> real tuple list \<Rightarrow> nat \<Rightarrow> nat \<Rightarrow> real tuple \<Rightarrow> n_best \<Rightarrow> n_best option" where
  "knn K I S first lst v nb =
     (if lst - first = 1 then
        (case deref S first of
           None \<Rightarrow> None
         | Some x \<Rightarrow> Some (add (l2dist K x v) first nb))
      else if lst - first = 0 then Some nb
      else
        (case find_pivot I S first lst of
           None \<Rightarrow> None
         | Some pivot \<Rightarrow>
        (case deref S pivot of
           None \<Rightarrow> None
         | Some pv \<Rightarrow>
        (let nb1 = add (l2dist K pv v) pivot nb;
             search_left = less_nth I v pv in
        (case (if search_left
               then knn K (incr_wrap K I) S first pivot v nb1
               else knn K (incr_wrap K I) S (pivot + 1) lst v nb1) of
           None \<Rightarrow> None
         | Some nb2 \<Rightarrow>
             if \<bar>get I v - get I pv\<bar> \<le> max_key nb2 then
               (if search_left
                then knn K (incr_wrap K I) S (pivot + 1) lst v nb2
                else knn K (incr_wrap K I) S first pivot v nb2)
             else Some nb2)))))"
  by pat_completeness auto
termination
  by (relation "measure (\<lambda>(K, I, S, first, lst, v, nb). lst - first)")
     (auto dest: find_pivot_bounds)

declare knn.simps [simp del]

definition kd_nearest_neighbors ::
  "nat \<Rightarrow> real tuple list \<Rightarrow> nat \<Rightarrow> nat \<Rightarrow> real tuple \<Rightarrow> nat \<Rightarrow> real tuple list option" where
  "kd_nearest_neighbors K S first lst v n =
     (case knn K 0 S first lst v (n_best_init n) of
        None \<Rightarrow> None
      | Some nb \<Rightarrow> copy S nb)"

section \<open>The k-d sort\<close>

text \<open>
  \<open>std::nth_element\<close> and \<open>std::partition\<close> are known by their contracts only, so they
  are relations between the range before and after. For \<open>nth_element(first, nth, last,
  comp)\<close> the standard promises a permutation in which no element of \<open>[nth, last)\<close> is
  below an element of \<open>[first, nth)\<close>, and in which \<open>*nth\<close> is the element that sorting
  would put there, so that nothing in \<open>[nth, last)\<close> is below it. For \<open>partition(first,
  last, pred)\<close> it promises a permutation and a returned position \<open>p\<close> with \<open>pred\<close> true
  on \<open>[first, p)\<close> and false on \<open>[p, last)\<close>; the order inside the two groups is
  unspecified.
\<close>

definition nth_element_post :: "('a \<Rightarrow> 'a \<Rightarrow> bool) \<Rightarrow> 'a list \<Rightarrow> nat \<Rightarrow> 'a list \<Rightarrow> bool" where
  "nth_element_post cmp xs n ys \<longleftrightarrow>
     mset ys = mset xs \<and>
     (\<forall>x \<in> set (take n ys). \<forall>y \<in> set (drop n ys). \<not> cmp y x) \<and>
     (\<forall>y \<in> set (drop n ys). \<not> cmp y (ys ! n))"

definition partition_post :: "('a \<Rightarrow> bool) \<Rightarrow> 'a list \<Rightarrow> 'a list \<Rightarrow> nat \<Rightarrow> bool" where
  "partition_post pred xs ys p \<longleftrightarrow>
     mset ys = mset xs \<and> p \<le> length ys \<and>
     (\<forall>x \<in> set (take p ys). pred x) \<and>
     (\<forall>x \<in> set (drop p ys). \<not> pred x)"

text \<open>
  \<open>kd_sort<I>(first, last)\<close> on the content \<open>xs\<close> of \<open>[first, last)\<close>: \<open>kd_sort K I xs rs\<close>
  holds when \<open>rs\<close> is a content the call can leave behind. \<open>bind(pred, _1, *pivot)\<close>
  copies the value \<open>*pivot\<close> before \<open>partition\<close> runs.
\<close>

inductive kd_sort :: "nat \<Rightarrow> nat \<Rightarrow> 'a::linorder tuple list \<Rightarrow> 'a tuple list \<Rightarrow> bool"
  for K :: nat where
  kd_sort_return:
    "\<not> length xs > 1 \<Longrightarrow> kd_sort K I xs xs"
| kd_sort_recurse:
    "length xs > 1 \<Longrightarrow>
     pivot = midpos 0 (length xs) \<Longrightarrow>
     nth_element_post (kd_less K I 0) xs pivot ys \<Longrightarrow>
     partition_post (\<lambda>x. kd_less K I 0 x (ys ! pivot)) (take pivot ys) zs p \<Longrightarrow>
     kd_sort K (incr_wrap K I) (drop (p + 1) (zs @ drop pivot ys)) right \<Longrightarrow>
     kd_sort K (incr_wrap K I) (take p (zs @ drop pivot ys)) left \<Longrightarrow>
     kd_sort K I xs (left @ [(zs @ drop pivot ys) ! p] @ right)"

text \<open>
  The same calls with a record of the splits they make: one entry \<open>(I, ys, zs, p)\<close> for
  every call that passes the test \<open>distance(first, last) > 1\<close>, holding the axis \<open>I\<close>,
  the content \<open>ys\<close> of \<open>[first, last)\<close> after \<open>nth_element\<close>, the content \<open>zs\<close> of
  \<open>[first, pivot)\<close> after \<open>partition\<close>, and the position \<open>p\<close> that \<open>partition\<close> returned;
  the entries of the two recursive calls follow in the order of the calls. Without the
  record this is \<open>kd_sort\<close>.
\<close>

type_synonym 'a split = "nat \<times> 'a tuple list \<times> 'a tuple list \<times> nat"

inductive kd_sort_splits ::
  "nat \<Rightarrow> nat \<Rightarrow> 'a::linorder tuple list \<Rightarrow> 'a tuple list \<Rightarrow> 'a split list \<Rightarrow> bool"
  for K :: nat where
  kd_sort_splits_return:
    "\<not> length xs > 1 \<Longrightarrow> kd_sort_splits K I xs xs []"
| kd_sort_splits_recurse:
    "length xs > 1 \<Longrightarrow>
     pivot = midpos 0 (length xs) \<Longrightarrow>
     nth_element_post (kd_less K I 0) xs pivot ys \<Longrightarrow>
     partition_post (\<lambda>x. kd_less K I 0 x (ys ! pivot)) (take pivot ys) zs p \<Longrightarrow>
     kd_sort_splits K (incr_wrap K I) (drop (p + 1) (zs @ drop pivot ys)) right sr \<Longrightarrow>
     kd_sort_splits K (incr_wrap K I) (take p (zs @ drop pivot ys)) left sl \<Longrightarrow>
     kd_sort_splits K I xs (left @ [(zs @ drop pivot ys) ! p] @ right) ((I, ys, zs, p) # sr @ sl)"

text \<open>
  The layout that the code leaves behind: at every level there is a position \<open>p\<close>, not
  after \<open>midpos\<close>, with everything before it below \<open>S[p]\<close> in the cyclic order from axis
  \<open>I\<close>, nothing after it below \<open>S[p]\<close>, and the two sides laid out the same way from the
  next axis.
\<close>

function kd_order :: "nat \<Rightarrow> nat \<Rightarrow> 'a::linorder tuple list \<Rightarrow> bool" where
  "kd_order K I xs =
     (if length xs > 1 then
        (\<exists>p \<in> {0 .. midpos 0 (length xs)}.
           (\<forall>x \<in> set (take p xs). kd_less K I 0 x (xs ! p)) \<and>
           (\<forall>y \<in> set (drop (p + 1) xs). \<not> kd_less K I 0 y (xs ! p)) \<and>
           kd_order K (incr_wrap K I) (take p xs) \<and>
           kd_order K (incr_wrap K I) (drop (p + 1) xs))
      else True)"
  by pat_completeness auto
termination
  by (relation "measure (\<lambda>(K, I, xs). length xs)") (auto simp: midpos_def)

declare kd_order.simps [simp del]

text \<open>
  The k-d order of the specification, in its words: the position is \<open>p = midpos(first,
  last)\<close>; every \<open>x\<close> in \<open>[first, p)\<close> has \<open>x[i] < S[p][i]\<close>, or \<open>x[i] = S[p][i]\<close> and \<open>x\<close>
  cyclically-lex-less than \<open>S[p]\<close> from axis \<open>i\<close>; every \<open>y\<close> in \<open>(p, last)\<close> has
  \<open>S[p][i] \<le> y[i]\<close> with the same tie-break, that is, \<open>y\<close> is not cyclically-lex-less
  than \<open>S[p]\<close>; and the two halves satisfy the same at the next axis.
\<close>

function spec_kd_order :: "nat \<Rightarrow> nat \<Rightarrow> 'a::linorder tuple list \<Rightarrow> bool" where
  "spec_kd_order K I xs =
     (if length xs > 1 then
        (let p = midpos 0 (length xs) in
           (\<forall>x \<in> set (take p xs).
               get I x < get I (xs ! p) \<or> (get I x = get I (xs ! p) \<and> kd_less K I 0 x (xs ! p))) \<and>
           (\<forall>y \<in> set (drop (p + 1) xs).
               get I (xs ! p) \<le> get I y \<and> \<not> kd_less K I 0 y (xs ! p)) \<and>
           spec_kd_order K (incr_wrap K I) (take p xs) \<and>
           spec_kd_order K (incr_wrap K I) (drop (p + 1) xs))
      else True)"
  by pat_completeness auto
termination
  by (relation "measure (\<lambda>(K, I, xs). length xs)") (auto simp: midpos_def)

declare spec_kd_order.simps [simp del]

section \<open>Properties of the k-d sort\<close>

text \<open>The equations that evaluate the primitives on concrete tuples.\<close>

lemmas prim_eval = get_def midpos_def less_nth_def incr_wrap_def is_not_last_def is_last_def
  all_less_def all_less_rec.simps none_less_def none_less_rec.simps kd_less.simps
  sum_of_squares_def sum_of_squares_rec.simps deref_def partition_point_def
  partition_point_loop.simps find_pivot_def Let_def

lemma kd_less_last:
  "\<not> (is_not_last K N \<and> N < K) \<Longrightarrow> kd_less K I N a b = (get I a < get I b)"
  by (subst kd_less.simps) auto

lemma kd_less_step:
  "is_not_last K N \<and> N < K \<Longrightarrow>
   kd_less K I N a b =
     (if get I a = get I b then kd_less K (incr_wrap K I) (N + 1) a b else get I a < get I b)"
  by (subst kd_less.simps) simp

lemma kd_less_irrefl_aux: "a = b \<longrightarrow> \<not> kd_less K I N a b"
proof (induction K I N a b rule: kd_less.induct)
  case (1 K I N lhs rhs)
  show ?case
  proof (cases "is_not_last K N \<and> N < K")
    case False
    then show ?thesis by (simp add: kd_less_last)
  next
    case True
    with "1.IH" show ?thesis by (simp add: kd_less_step[OF True])
  qed
qed

lemma kd_less_irrefl: "\<not> kd_less K I N a a"
  using kd_less_irrefl_aux[of a a] by simp

lemma kd_less_negtrans:
  "\<not> kd_less K I N a b \<Longrightarrow> \<not> kd_less K I N b c \<Longrightarrow> \<not> kd_less K I N a c"
proof (induction K I N a b rule: kd_less.induct)
  case (1 K I N lhs rhs)
  show ?case
  proof (cases "is_not_last K N \<and> N < K")
    case False
    with "1.prems" show ?thesis
      by (simp add: kd_less_last)
  next
    case c: True
    show ?thesis
    proof (cases "get I lhs = get I rhs")
      case eq: True
      show ?thesis
      proof (cases "get I rhs = get I c")
        case True
        with "1.IH"[OF c eq] "1.prems" eq c show ?thesis
          by (simp add: kd_less_step[OF c])
      next
        case False
        with "1.prems" eq c show ?thesis
          by (simp add: kd_less_step[OF c])
      qed
    next
      case False
      with "1.prems" c show ?thesis
        by (auto simp add: kd_less_step[OF c] split: if_splits)
    qed
  qed
qed

lemma kd_less_trans:
  "kd_less K I N a b \<Longrightarrow> kd_less K I N b c \<Longrightarrow> kd_less K I N a c"
proof (induction K I N a b rule: kd_less.induct)
  case (1 K I N lhs rhs)
  show ?case
  proof (cases "is_not_last K N \<and> N < K")
    case False
    with "1.prems" show ?thesis
      by (simp add: kd_less_last)
  next
    case c: True
    show ?thesis
    proof (cases "get I lhs = get I rhs")
      case eq: True
      show ?thesis
      proof (cases "get I rhs = get I c")
        case True
        with "1.IH"[OF c eq] "1.prems" eq c show ?thesis
          by (simp add: kd_less_step[OF c])
      next
        case False
        with "1.prems" eq c show ?thesis
          by (simp add: kd_less_step[OF c])
      qed
    next
      case False
      with "1.prems" c show ?thesis
        by (auto simp add: kd_less_step[OF c] split: if_splits)
    qed
  qed
qed

lemma mset_take_nth_drop:
  assumes "p < length w"
  shows "mset w = mset (take p w) + {#w ! p#} + mset (drop (p + 1) w)"
proof -
  have "w = take p w @ w ! p # drop (Suc p) w"
    using assms by (rule id_take_nth_drop)
  then have "mset w = mset (take p w @ w ! p # drop (Suc p) w)"
    by (rule arg_cong)
  then show ?thesis by simp
qed

lemma kd_sort_step_facts:
  assumes "length xs > 1" and "pivot = midpos 0 (length xs)"
    and "nth_element_post cmp xs pivot ys"
    and "partition_post pred (take pivot ys) zs p"
  shows "length ys = length xs" and "pivot < length ys" and "length zs = pivot"
    and "p \<le> pivot" and "p < length (zs @ drop pivot ys)"
    and "mset (zs @ drop pivot ys) = mset xs"
    and "set zs = set (take pivot ys)"
proof -
  from assms(3) have my: "mset ys = mset xs"
    by (simp add: nth_element_post_def)
  then show ly: "length ys = length xs"
    by (rule mset_eq_length)
  with assms(1,2) show pl: "pivot < length ys"
    by (simp add: midpos_def)
  from assms(4) have mz: "mset zs = mset (take pivot ys)" and pz: "p \<le> length zs"
    by (simp_all add: partition_post_def)
  from mz have "length zs = length (take pivot ys)"
    by (rule mset_eq_length)
  with pl show lz: "length zs = pivot"
    by simp
  with pz show "p \<le> pivot" by simp
  from pz lz pl show "p < length (zs @ drop pivot ys)" by simp
  have "mset (zs @ drop pivot ys) = mset (take pivot ys) + mset (drop pivot ys)"
    using mz by simp
  also have "\<dots> = mset (take pivot ys @ drop pivot ys)"
    by (simp only: mset_append)
  also have "\<dots> = mset ys"
    by (simp only: append_take_drop_id)
  finally show "mset (zs @ drop pivot ys) = mset xs"
    using my by simp
  from mz show "set zs = set (take pivot ys)"
    by (rule mset_eq_setD)
qed

lemma kd_sort_mset: "kd_sort K I xs rs \<Longrightarrow> mset rs = mset xs"
proof (induction rule: kd_sort.induct)
  case (kd_sort_return xs I)
  show ?case by simp
next
  case (kd_sort_recurse xs pivot I ys zs p right left)
  let ?w = "zs @ drop pivot ys"
  note f = kd_sort_step_facts[OF kd_sort_recurse.hyps(1-4)]
  have "mset (left @ [?w ! p] @ right) = mset (take p ?w) + {#?w ! p#} + mset (drop (p + 1) ?w)"
    using kd_sort_recurse.IH by simp
  also have "\<dots> = mset ?w"
    using mset_take_nth_drop[OF f(5)] by simp
  finally show ?case
    using f(6) by simp
qed

lemma kd_sort_length: "kd_sort K I xs rs \<Longrightarrow> length rs = length xs"
  by (drule kd_sort_mset) (rule mset_eq_length)

lemma kd_sort_set: "kd_sort K I xs rs \<Longrightarrow> set rs = set xs"
  by (drule kd_sort_mset) (rule mset_eq_setD)

lemma nth_in_set_drop: "p < length zs \<Longrightarrow> zs ! p \<in> set (drop p zs)"
  by (simp add: Cons_nth_drop_Suc[symmetric])

text \<open>What \<open>nth_element\<close> followed by \<open>partition\<close> establishes around the new pivot.\<close>

lemma kd_sort_step_pivot:
  assumes "length xs > 1" and "pivot = midpos 0 (length xs)"
    and ne: "nth_element_post (kd_less K I 0) xs pivot ys"
    and pa: "partition_post (\<lambda>x. kd_less K I 0 x (ys ! pivot)) (take pivot ys) zs p"
  defines "w \<equiv> zs @ drop pivot ys"
  shows "\<forall>x \<in> set (take p w). kd_less K I 0 x (w ! p)"
    and "\<forall>y \<in> set (drop (p + 1) w). \<not> kd_less K I 0 y (w ! p)"
    and "\<not> kd_less K I 0 (w ! p) (ys ! pivot)"
    and "\<not> kd_less K I 0 (ys ! pivot) (w ! p)"
proof -
  note f = kd_sort_step_facts[OF assms(1-4)]
  let ?pv = "ys ! pivot"
  have pv_in: "?pv \<in> set (drop pivot ys)"
    using f(2) by (rule nth_in_set_drop)
  have left_le: "\<not> kd_less K I 0 ?pv x" if "x \<in> set zs" for x
    using that ne pv_in f(7) by (auto simp: nth_element_post_def)
  have right_ge: "\<not> kd_less K I 0 y ?pv" if "y \<in> set (drop pivot ys)" for y
    using that ne by (auto simp: nth_element_post_def)
  have low: "kd_less K I 0 x ?pv" if "x \<in> set (take p zs)" for x
    using that pa by (auto simp: partition_post_def)
  have high: "\<not> kd_less K I 0 y ?pv" if "y \<in> set (drop p zs)" for y
    using that pa by (auto simp: partition_post_def)
  have e1: "\<not> kd_less K I 0 (w ! p) ?pv" and e2: "\<not> kd_less K I 0 ?pv (w ! p)"
  proof -
    show "\<not> kd_less K I 0 (w ! p) ?pv"
    proof (cases "p < pivot")
      case True
      then have "w ! p = zs ! p" and "zs ! p \<in> set (drop p zs)"
        using f(3) by (auto simp: w_def nth_append intro: nth_in_set_drop)
      with high show ?thesis by simp
    next
      case False
      with f(4) f(3) f(2) have "w ! p = ?pv"
        by (simp add: w_def nth_append)
      then show ?thesis by (simp add: kd_less_irrefl)
    qed
    show "\<not> kd_less K I 0 ?pv (w ! p)"
    proof (cases "p < pivot")
      case True
      then have "w ! p = zs ! p" and "zs ! p \<in> set zs"
        using f(3) by (auto simp: w_def nth_append)
      with left_le show ?thesis by simp
    next
      case False
      with f(4) f(3) f(2) have "w ! p = ?pv"
        by (simp add: w_def nth_append)
      then show ?thesis by (simp add: kd_less_irrefl)
    qed
  qed
  show "\<not> kd_less K I 0 (w ! p) ?pv" by (rule e1)
  show "\<not> kd_less K I 0 ?pv (w ! p)" by (rule e2)
  show "\<forall>x \<in> set (take p w). kd_less K I 0 x (w ! p)"
  proof
    fix x assume "x \<in> set (take p w)"
    with f(3) f(4) have "x \<in> set (take p zs)"
      by (simp add: w_def)
    then have "kd_less K I 0 x ?pv" by (rule low)
    with kd_less_negtrans[OF _ e1, of x] show "kd_less K I 0 x (w ! p)"
      by blast
  qed
  show "\<forall>y \<in> set (drop (p + 1) w). \<not> kd_less K I 0 y (w ! p)"
  proof
    fix y assume "y \<in> set (drop (p + 1) w)"
    then have "y \<in> set (drop (p + 1) zs) \<or> y \<in> set (drop (p + 1 - length zs) (drop pivot ys))"
      by (auto simp: w_def)
    moreover have "set (drop (p + 1) zs) \<subseteq> set (drop p zs)"
      by (rule set_drop_subset_set_drop) simp
    moreover have "set (drop (p + 1 - length zs) (drop pivot ys)) \<subseteq> set (drop pivot ys)"
      by (rule set_drop_subset)
    ultimately have "y \<in> set (drop p zs) \<or> y \<in> set (drop pivot ys)"
      by blast
    with high right_ge have "\<not> kd_less K I 0 y ?pv" by blast
    from kd_less_negtrans[OF this e2] show "\<not> kd_less K I 0 y (w ! p)" .
  qed
qed

lemma kd_sort_kd_order: "kd_sort K I xs rs \<Longrightarrow> kd_order K I rs"
proof (induction rule: kd_sort.induct)
  case (kd_sort_return xs I)
  then show ?case by (subst kd_order.simps) simp
next
  case (kd_sort_recurse xs pivot I ys zs p right left)
  let ?w = "zs @ drop pivot ys"
  let ?r = "left @ [?w ! p] @ right"
  note f = kd_sort_step_facts[OF kd_sort_recurse.hyps(1-4)]
  note pv = kd_sort_step_pivot[OF kd_sort_recurse.hyps(1-4)]
  have ll: "length left = p"
    using kd_sort_length[OF kd_sort_recurse.hyps(6)] f(5) by simp
  have sl: "set left = set (take p ?w)" and sr: "set right = set (drop (p + 1) ?w)"
    using kd_sort_set[OF kd_sort_recurse.hyps(5)] kd_sort_set[OF kd_sort_recurse.hyps(6)]
    by simp_all
  have lr: "length ?r = length xs"
    using kd_sort_length[OF kd_sort_recurse.hyps(5)] ll f(5) f(6)[THEN mset_eq_length]
    by simp
  have tk: "take p ?r = left" and nt: "?r ! p = ?w ! p" and dr: "drop (p + 1) ?r = right"
    using ll by (simp_all add: nth_append)
  have "p \<in> {0 .. midpos 0 (length ?r)}"
    using f(4) kd_sort_recurse.hyps(2) lr by simp
  moreover have "\<forall>x \<in> set (take p ?r). kd_less K I 0 x (?r ! p)"
    unfolding tk nt sl by (rule pv(1))
  moreover have "\<forall>y \<in> set (drop (p + 1) ?r). \<not> kd_less K I 0 y (?r ! p)"
    unfolding dr nt sr by (rule pv(2))
  moreover have "kd_order K (incr_wrap K I) (take p ?r)"
    unfolding tk by (rule kd_sort_recurse.IH(2))
  moreover have "kd_order K (incr_wrap K I) (drop (p + 1) ?r)"
    unfolding dr by (rule kd_sort_recurse.IH(1))
  ultimately have "\<exists>p \<in> {0 .. midpos 0 (length ?r)}.
           (\<forall>x \<in> set (take p ?r). kd_less K I 0 x (?r ! p)) \<and>
           (\<forall>y \<in> set (drop (p + 1) ?r). \<not> kd_less K I 0 y (?r ! p)) \<and>
           kd_order K (incr_wrap K I) (take p ?r) \<and>
           kd_order K (incr_wrap K I) (drop (p + 1) ?r)"
    by blast
  then show ?case
    by (subst kd_order.simps) (simp only: if_True lr kd_sort_recurse.hyps(1))
qed

text \<open>
  One behaviour that both contracts allow, used to show that \<open>kd_sort\<close> always has a
  result: \<open>nth_element\<close> may sort the whole range, \<open>partition\<close> may keep the order inside
  the two groups.
\<close>

fun insert_by :: "('a \<Rightarrow> 'a \<Rightarrow> bool) \<Rightarrow> 'a \<Rightarrow> 'a list \<Rightarrow> 'a list" where
  "insert_by cmp x [] = [x]"
| "insert_by cmp x (y # ys) = (if cmp x y then x # y # ys else y # insert_by cmp x ys)"

fun sort_by :: "('a \<Rightarrow> 'a \<Rightarrow> bool) \<Rightarrow> 'a list \<Rightarrow> 'a list" where
  "sort_by cmp [] = []"
| "sort_by cmp (x # xs) = insert_by cmp x (sort_by cmp xs)"

lemma mset_insert_by: "mset (insert_by cmp x ys) = add_mset x (mset ys)"
  by (induction ys) simp_all

lemma mset_sort_by: "mset (sort_by cmp xs) = mset xs"
  by (induction xs) (simp_all add: mset_insert_by)

lemma set_insert_by: "set (insert_by cmp x ys) = insert x (set ys)"
  by (induction ys) auto

lemma sorted_insert_by:
  assumes "sorted_wrt (\<lambda>a b. \<not> kd_less K I N b a) ys"
  shows "sorted_wrt (\<lambda>a b. \<not> kd_less K I N b a) (insert_by (kd_less K I N) x ys)"
  using assms
proof (induction ys)
  case Nil
  show ?case by simp
next
  case (Cons y ys)
  show ?case
  proof (cases "kd_less K I N x y")
    case True
    have "\<not> kd_less K I N z x" if "z \<in> set (y # ys)" for z
    proof
      assume "kd_less K I N z x"
      from kd_less_trans[OF this True] have "kd_less K I N z y" .
      with that Cons.prems show False
        by (auto simp: kd_less_irrefl)
    qed
    with True Cons.prems show ?thesis by simp
  next
    case False
    with Cons show ?thesis
      by (auto simp: set_insert_by)
  qed
qed

lemma sorted_sort_by:
  "sorted_wrt (\<lambda>a b. \<not> kd_less K I N b a) (sort_by (kd_less K I N) xs)"
  by (induction xs) (simp_all add: sorted_insert_by)

lemma nth_element_post_sort_by:
  "nth_element_post (kd_less K I N) xs n (sort_by (kd_less K I N) xs)"
proof -
  let ?ys = "sort_by (kd_less K I N) xs"
  have s: "sorted_wrt (\<lambda>a b. \<not> kd_less K I N b a) (take n ?ys @ drop n ?ys)"
    by (simp only: append_take_drop_id sorted_sort_by)
  have a: "\<forall>x \<in> set (take n ?ys). \<forall>y \<in> set (drop n ?ys). \<not> kd_less K I N y x"
    using s unfolding sorted_wrt_append by blast
  have b: "\<forall>y \<in> set (drop n ?ys). \<not> kd_less K I N y (?ys ! n)"
  proof (cases "n < length ?ys")
    case True
    then have d: "drop n ?ys = ?ys ! n # drop (Suc n) ?ys"
      by (simp add: Cons_nth_drop_Suc)
    from s have "sorted_wrt (\<lambda>a b. \<not> kd_less K I N b a) (drop n ?ys)"
      unfolding sorted_wrt_append by blast
    then show ?thesis
      unfolding d by (auto simp: kd_less_irrefl)
  next
    case False
    then show ?thesis by simp
  qed
  show ?thesis
    unfolding nth_element_post_def using a b by (simp add: mset_sort_by)
qed

lemma partition_post_filter:
  "partition_post pred xs (filter pred xs @ filter (\<lambda>x. \<not> pred x) xs) (length (filter pred xs))"
  by (simp add: partition_post_def)

lemma kd_sort_total: "\<exists>rs. kd_sort K I xs rs"
proof (induction "length xs" arbitrary: xs I rule: less_induct)
  case less
  show ?case
  proof (cases "length xs > 1")
    case False
    then show ?thesis by (blast intro: kd_sort_return)
  next
    case True
    define pivot where "pivot = midpos 0 (length xs)"
    define ys where "ys = sort_by (kd_less K I 0) xs"
    define pred where "pred = (\<lambda>x. kd_less K I 0 x (ys ! pivot))"
    define zs where "zs = filter pred (take pivot ys) @ filter (\<lambda>x. \<not> pred x) (take pivot ys)"
    define p where "p = length (filter pred (take pivot ys))"
    have ne: "nth_element_post (kd_less K I 0) xs pivot ys"
      unfolding ys_def by (rule nth_element_post_sort_by)
    have pa: "partition_post (\<lambda>x. kd_less K I 0 x (ys ! pivot)) (take pivot ys) zs p"
      using partition_post_filter[of pred "take pivot ys"]
      by (simp add: zs_def p_def pred_def)
    note f = kd_sort_step_facts[OF True pivot_def ne pa]
    have lw: "length (zs @ drop pivot ys) = length xs"
      using f(6)[THEN mset_eq_length] .
    have "length (drop (p + 1) (zs @ drop pivot ys)) < length xs"
      using lw True by simp
    from less[OF this] obtain right where
      r: "kd_sort K (incr_wrap K I) (drop (p + 1) (zs @ drop pivot ys)) right"
      by blast
    have "length (take p (zs @ drop pivot ys)) < length xs"
      using lw f(5) by simp
    from less[OF this] obtain left where
      l: "kd_sort K (incr_wrap K I) (take p (zs @ drop pivot ys)) left"
      by blast
    from kd_sort_recurse[OF True pivot_def ne pa r l] show ?thesis
      by blast
  qed
qed

lemma kd_less_axis_le: "kd_less K I N a b \<Longrightarrow> get I a \<le> get I b"
  by (subst (asm) kd_less.simps) (auto split: if_splits)

lemma not_kd_less_axis_le: "\<not> kd_less K I N a b \<Longrightarrow> get I b \<le> get I a"
  by (subst (asm) kd_less.simps) (auto split: if_splits)

text \<open>Two tuples that the cyclic order does not separate agree on every axis it visits.\<close>

lemma kd_less_equiv_axes:
  "\<not> kd_less K I N a b \<Longrightarrow> \<not> kd_less K I N b a \<Longrightarrow> I < K \<Longrightarrow> m < K - N \<Longrightarrow>
   get ((I + m) mod K) a = get ((I + m) mod K) b"
proof (induction K I N a b arbitrary: m rule: kd_less.induct)
  case (1 K I N lhs rhs)
  have eqI: "get I lhs = get I rhs"
    using not_kd_less_axis_le[OF "1.prems"(1)] not_kd_less_axis_le[OF "1.prems"(2)] by simp
  show ?case
  proof (cases m)
    case 0
    with eqI "1.prems"(3) show ?thesis by simp
  next
    case (Suc m')
    with "1.prems"(4) have c: "is_not_last K N \<and> N < K"
      by (auto simp: is_not_last_def)
    from "1.prems"(1,2) eqI have
      n1: "\<not> kd_less K (incr_wrap K I) (N + 1) lhs rhs" and
      n2: "\<not> kd_less K (incr_wrap K I) (N + 1) rhs lhs"
      by (simp_all add: kd_less_step[OF c])
    have iw: "incr_wrap K I < K"
      using "1.prems"(3) by (simp add: incr_wrap_def)
    have "m' < K - (N + 1)"
      using Suc "1.prems"(4) by simp
    from "1.IH"[OF c eqI n1 n2 iw this]
    have "get ((incr_wrap K I + m') mod K) lhs = get ((incr_wrap K I + m') mod K) rhs" .
    moreover have "(incr_wrap K I + m') mod K = (I + m) mod K"
      unfolding incr_wrap_def Suc by (simp add: mod_simps)
    ultimately show ?thesis by simp
  qed
qed

lemma kd_less_linear:
  assumes "\<not> kd_less K I 0 a b" and "\<not> kd_less K I 0 b a"
    and "I < K" and "length a = K" and "length b = K"
  shows "a = b"
proof (rule nth_equalityI)
  show "length a = length b" using assms by simp
  fix i assume "i < length a"
  with assms have iK: "i < K" by simp
  define m where "m = (i + K - I) mod K"
  have "m < K - 0" using iK by (simp add: m_def)
  from kd_less_equiv_axes[OF assms(1,2,3) this]
  have "get ((I + m) mod K) a = get ((I + m) mod K) b" .
  moreover have "(I + m) mod K = i"
  proof -
    have "(I + m) mod K = (I + (i + K - I)) mod K"
      unfolding m_def by (simp add: mod_simps)
    also have "I + (i + K - I) = i + K"
      using assms(3) by simp
    also have "(i + K) mod K = i"
      using iK by simp
    finally show ?thesis .
  qed
  ultimately show "a ! i = b ! i"
    by (simp add: get_def)
qed

lemma kd_sort_spec_kd_order:
  "kd_sort K I xs rs \<Longrightarrow> distinct xs \<Longrightarrow> \<forall>x \<in> set xs. length x = K \<Longrightarrow> I < K \<Longrightarrow>
   spec_kd_order K I rs"
proof (induction rule: kd_sort.induct)
  case (kd_sort_return xs I)
  then show ?case by (subst spec_kd_order.simps) simp
next
  case (kd_sort_recurse xs pivot I ys zs p right left)
  let ?w = "zs @ drop pivot ys"
  let ?r = "left @ [?w ! p] @ right"
  let ?pv = "ys ! pivot"
  note ne = kd_sort_recurse.hyps(3) and pa = kd_sort_recurse.hyps(4)
  note f = kd_sort_step_facts[OF kd_sort_recurse.hyps(1-4)]
  note pv = kd_sort_step_pivot[OF kd_sort_recurse.hyps(1-4)]
  have my: "mset ys = mset xs"
    using ne by (simp add: nth_element_post_def)
  have dy: "distinct ys"
    using my kd_sort_recurse.prems(1) by (metis mset_eq_imp_distinct_iff)
  have ly: "\<forall>x \<in> set ys. length x = K"
    using mset_eq_setD[OF my] kd_sort_recurse.prems(2) by simp
  have pvK: "length ?pv = K"
    using ly f(2) by simp
  have "distinct (take pivot ys @ drop pivot ys)"
    using dy by (simp only: append_take_drop_id)
  then have disj: "set (take pivot ys) \<inter> set (drop pivot ys) = {}"
    unfolding distinct_append by blast
  have pv_notin: "?pv \<notin> set zs"
    using disj nth_in_set_drop[OF f(2)] f(7) by blast
  have "drop p zs = []"
  proof (rule ccontr)
    assume "drop p zs \<noteq> []"
    then obtain x where x: "x \<in> set (drop p zs)"
      by (cases "drop p zs") auto
    then have xz: "x \<in> set zs"
      by (rule in_set_dropD)
    with f(7) have xt: "x \<in> set (take pivot ys)" by simp
    then have "x \<in> set ys" by (rule in_set_takeD)
    with ly have xK: "length x = K" by simp
    from x pa have n1: "\<not> kd_less K I 0 x ?pv"
      by (simp add: partition_post_def)
    from xt ne nth_in_set_drop[OF f(2)] have n2: "\<not> kd_less K I 0 ?pv x"
      by (simp add: nth_element_post_def)
    from kd_less_linear[OF n1 n2 kd_sort_recurse.prems(3) xK pvK] xz pv_notin
    show False by simp
  qed
  with f(3) f(4) have pp: "p = pivot" by simp
  have ll: "length left = p"
    using kd_sort_length[OF kd_sort_recurse.hyps(6)] f(5) by simp
  have sl: "set left = set (take p ?w)" and sr: "set right = set (drop (p + 1) ?w)"
    using kd_sort_set[OF kd_sort_recurse.hyps(5)] kd_sort_set[OF kd_sort_recurse.hyps(6)]
    by simp_all
  have lr: "length ?r = length xs"
    using kd_sort_length[OF kd_sort_recurse.hyps(5)] ll f(5) f(6)[THEN mset_eq_length]
    by simp
  have tk: "take p ?r = left" and nt: "?r ! p = ?w ! p" and dr: "drop (p + 1) ?r = right"
    using ll by (simp_all add: nth_append)
  have dw: "distinct ?w"
    using f(6) kd_sort_recurse.prems(1) by (metis mset_eq_imp_distinct_iff)
  have lw: "\<forall>x \<in> set ?w. length x = K"
    using mset_eq_setD[OF f(6)] kd_sort_recurse.prems(2) by simp
  have iw: "incr_wrap K I < K"
    using kd_sort_recurse.prems(3) by (simp add: incr_wrap_def)
  have 1: "\<forall>x \<in> set (take p ?r).
      get I x < get I (?r ! p) \<or> (get I x = get I (?r ! p) \<and> kd_less K I 0 x (?r ! p))"
    unfolding tk nt sl using pv(1) kd_less_axis_le[of K I 0] by fastforce
  have 2: "\<forall>y \<in> set (drop (p + 1) ?r).
      get I (?r ! p) \<le> get I y \<and> \<not> kd_less K I 0 y (?r ! p)"
    unfolding dr nt sr using pv(2) not_kd_less_axis_le[of K I 0] by blast
  have 3: "spec_kd_order K (incr_wrap K I) (take p ?r)"
    unfolding tk
  proof (rule kd_sort_recurse.IH(2))
    show "distinct (take p ?w)" using dw by (rule distinct_take)
    show "\<forall>x \<in> set (take p ?w). length x = K"
      using lw by (meson in_set_takeD)
    show "incr_wrap K I < K" by (rule iw)
  qed
  have 4: "spec_kd_order K (incr_wrap K I) (drop (p + 1) ?r)"
    unfolding dr
  proof (rule kd_sort_recurse.IH(1))
    show "distinct (drop (p + 1) ?w)" using dw by (rule distinct_drop)
    show "\<forall>x \<in> set (drop (p + 1) ?w). length x = K"
      using lw by (meson in_set_dropD)
    show "incr_wrap K I < K" by (rule iw)
  qed
  have mp: "midpos 0 (length ?r) = p"
    using pp kd_sort_recurse.hyps(2) lr by simp
  have gt: "length ?r > 1"
    using lr kd_sort_recurse.hyps(1) by simp
  have "(\<forall>x \<in> set (take p ?r).
          get I x < get I (?r ! p) \<or> (get I x = get I (?r ! p) \<and> kd_less K I 0 x (?r ! p))) \<and>
        (\<forall>y \<in> set (drop (p + 1) ?r).
          get I (?r ! p) \<le> get I y \<and> \<not> kd_less K I 0 y (?r ! p)) \<and>
        spec_kd_order K (incr_wrap K I) (take p ?r) \<and>
        spec_kd_order K (incr_wrap K I) (drop (p + 1) ?r)"
    using 1 2 3 4 by blast
  then show ?case
    by (subst spec_kd_order.simps) (simp only: gt if_True Let_def mp, blast)
qed

text \<open>
  C5, as amended. \<open>kd_sort\<close> always returns, and whatever \<open>nth_element\<close> and \<open>partition\<close>
  do within their contracts, the result has the layout \<open>kd_order\<close>: at every level there
  is a position \<open>p \<le> midpos(first, last)\<close> (the position \<open>partition\<close> returned) with
  everything in \<open>[first, p)\<close> cyclically-lex-less than \<open>S[p]\<close> from axis \<open>i\<close>, nothing in
  \<open>(p, last)\<close> cyclically-lex-less than \<open>S[p]\<close>, and the two sides laid out the same way
  from the next axis. When the tuples are pairwise distinct (and have \<open>K\<close> components),
  \<open>p\<close> is \<open>midpos(first, last)\<close> at every level, which is the layout of the
  specification.
\<close>

theorem kd_sort_layout:
  "(\<exists>rs. kd_sort K I xs rs) \<and>
   (\<forall>rs. kd_sort K I xs rs \<longrightarrow>
      kd_order K I rs \<and>
      (distinct xs \<and> (\<forall>x \<in> set xs. length x = K) \<and> I < K \<longrightarrow> spec_kd_order K I rs))"
  using kd_sort_total[of K I xs] kd_sort_kd_order[of K I xs] kd_sort_spec_kd_order[of K I xs]
  by blast

lemma kd_sort_example:
  "kd_sort 2 0 [[3, 1], [1, 2], [2, 3::int]] [[1, 2], [2, 3], [3, 1]]"
proof -
  let ?xs = "[[3, 1], [1, 2], [2, 3::int]]"
  let ?ys = "[[1, 2], [2, 3], [3, 1::int]]"
  have "kd_sort 2 0 ?xs ([[1, 2]] @ [([[1, 2]] @ drop 1 ?ys) ! 1] @ [[3, 1]])"
  proof (rule kd_sort_recurse[where pivot = 1 and ys = ?ys and zs = "[[1, 2]]" and p = 1])
    show "1 < length ?xs" by simp
    show "1 = midpos 0 (length ?xs)" by (simp add: midpos_def)
    show "nth_element_post (kd_less 2 0 0) ?xs 1 ?ys"
      by (simp add: nth_element_post_def prim_eval)
    show "partition_post (\<lambda>x. kd_less 2 0 0 x (?ys ! 1)) (take 1 ?ys) [[1, 2]] 1"
      by (simp add: partition_post_def prim_eval)
    show "kd_sort 2 (incr_wrap 2 0) (drop (1 + 1) ([[1, 2]] @ drop 1 ?ys)) [[3, 1]]"
      using kd_sort_return[of "[[3, 1::int]]" 2 "incr_wrap 2 0"] by simp
    show "kd_sort 2 (incr_wrap 2 0) (take 1 ([[1, 2]] @ drop 1 ?ys)) [[1, 2]]"
      using kd_sort_return[of "[[1, 2::int]]" 2 "incr_wrap 2 0"] by simp
  qed
  then show ?thesis by simp
qed

theorem kd_sort_layout_witness:
  "kd_sort 2 0 [[3, 1], [1, 2], [2, 3::int]] [[1, 2], [2, 3], [3, 1]] \<and>
   kd_order 2 0 [[1, 2], [2, 3], [3, 1::int]] \<and>
   spec_kd_order 2 0 [[1, 2], [2, 3], [3, 1::int]]"
  using kd_sort_layout[of 2 0 "[[3, 1], [1, 2], [2, 3::int]]"] kd_sort_example
  by simp

text \<open>
  C5 as stated fails when the median value occurs more than once: sorting two equal
  tuples leaves them as they are, and the element before \<open>midpos\<close> is then not
  cyclically-lex-less than the one at \<open>midpos\<close>.
\<close>

theorem kd_sort_layout_counterexample:
  "kd_sort 2 0 [[7, 7], [7, 7::int]] [[7, 7], [7, 7]] \<and>
   \<not> spec_kd_order 2 0 [[7, 7], [7, 7::int]]"
proof
  let ?xs = "[[7, 7], [7, 7::int]]"
  have "kd_sort 2 0 ?xs ([] @ [([[7, 7]] @ drop 1 ?xs) ! 0] @ [[7, 7]])"
  proof (rule kd_sort_recurse[where pivot = 1 and ys = ?xs and zs = "[[7, 7]]" and p = 0])
    show "1 < length ?xs" by simp
    show "1 = midpos 0 (length ?xs)" by (simp add: midpos_def)
    show "nth_element_post (kd_less 2 0 0) ?xs 1 ?xs"
      by (simp add: nth_element_post_def prim_eval)
    show "partition_post (\<lambda>x. kd_less 2 0 0 x (?xs ! 1)) (take 1 ?xs) [[7, 7]] 0"
      by (simp add: partition_post_def prim_eval)
    show "kd_sort 2 (incr_wrap 2 0) (drop (0 + 1) ([[7, 7]] @ drop 1 ?xs)) [[7, 7]]"
      using kd_sort_return[of "[[7, 7::int]]" 2 "incr_wrap 2 0"] by simp
    show "kd_sort 2 (incr_wrap 2 0) (take 0 ([[7, 7]] @ drop 1 ?xs)) []"
      using kd_sort_return[of "[]::int list list" 2 "incr_wrap 2 0"] by simp
  qed
  then show "kd_sort 2 0 ?xs ?xs" by simp
  show "\<not> spec_kd_order 2 0 ?xs"
    by (simp add: spec_kd_order.simps prim_eval)
qed

text \<open>
  One level of \<open>kd_sort\<close>: what the median selection followed by the re-partitioning of
  \<open>[first, pivot)\<close> leaves there.
\<close>

lemma partition_split_step:
  assumes "length xs > 1" and "pivot = midpos 0 (length xs)"
    and "nth_element_post (kd_less K I 0) xs pivot ys"
    and "partition_post (\<lambda>x. kd_less K I 0 x (ys ! pivot)) (take pivot ys) zs p"
  shows "mset zs = mset (take pivot ys) \<and> p \<le> pivot \<and>
     mset (take p zs) = filter_mset (\<lambda>x. kd_less K I 0 x (ys ! pivot)) (mset (take pivot ys)) \<and>
     (\<forall>x \<in> set (take p zs). kd_less K I 0 x (ys ! pivot)) \<and>
     (\<forall>x \<in> set (drop p zs). \<not> kd_less K I 0 x (ys ! pivot) \<and> \<not> kd_less K I 0 (ys ! pivot) x) \<and>
     \<not> kd_less K I 0 ((zs @ drop pivot ys) ! p) (ys ! pivot) \<and>
     ((\<forall>x \<in> set xs. length x = K) \<and> I < K \<longrightarrow> drop p zs = replicate (pivot - p) (ys ! pivot))"
proof -
  note f = kd_sort_step_facts[OF assms]
  note pv = kd_sort_step_pivot[OF assms]
  let ?P = "\<lambda>x. kd_less K I 0 x (ys ! pivot)"
  have mz: "mset zs = mset (take pivot ys)"
    using assms(4) by (simp add: partition_post_def)
  have low: "\<forall>x \<in> set (take p zs). ?P x" and high: "\<forall>x \<in> set (drop p zs). \<not> ?P x"
    using assms(4) by (simp_all add: partition_post_def)
  have "filter ?P (take p zs @ drop p zs) = take p zs"
    unfolding filter_append using low high by (simp add: filter_id_conv filter_empty_conv)
  then have "filter ?P zs = take p zs"
    by (simp only: append_take_drop_id)
  then have "mset (take p zs) = filter_mset ?P (mset zs)"
    by (simp flip: mset_filter)
  then have fm: "mset (take p zs) = filter_mset ?P (mset (take pivot ys))"
    using mz by simp
  have ge: "\<not> kd_less K I 0 (ys ! pivot) x" if "x \<in> set (drop p zs)" for x
  proof -
    from that have "x \<in> set (take pivot ys)"
      using f(7) by (auto dest: in_set_dropD)
    with assms(3) nth_in_set_drop[OF f(2)] show ?thesis
      by (simp add: nth_element_post_def)
  qed
  have rep: "drop p zs = replicate (pivot - p) (ys ! pivot)"
    if lK: "\<forall>x \<in> set xs. length x = K" and IK: "I < K"
  proof (rule replicate_eqI)
    show "length (drop p zs) = pivot - p" using f(3) by simp
    fix x assume x: "x \<in> set (drop p zs)"
    have sy: "set ys = set xs"
      using assms(3) by (auto simp: nth_element_post_def dest: mset_eq_setD)
    from x have "x \<in> set ys"
      using f(7) by (auto dest: in_set_dropD in_set_takeD)
    with sy lK have xK: "length x = K" by simp
    from f(2) sy lK have pK: "length (ys ! pivot) = K"
      by (metis nth_mem)
    from x high have "\<not> kd_less K I 0 x (ys ! pivot)" by simp
    from kd_less_linear[OF this ge[OF x] IK xK pK] show "x = ys ! pivot" .
  qed
  from mz f(4) fm low high ge pv(3) rep show ?thesis
    by blast
qed

text \<open>The record of splits adds nothing to \<open>kd_sort\<close> and takes nothing away.\<close>

lemma kd_sort_splits_erase: "kd_sort_splits K I xs rs splits \<Longrightarrow> kd_sort K I xs rs"
proof (induction rule: kd_sort_splits.induct)
  case (kd_sort_splits_return xs I)
  then show ?case by (rule kd_sort_return)
next
  case (kd_sort_splits_recurse xs pivot I ys zs p right sr left sl)
  from kd_sort_splits_recurse.hyps(1-4) kd_sort_splits_recurse.IH show ?case
    by (rule kd_sort_recurse)
qed

lemma kd_sort_splits_exist: "kd_sort K I xs rs \<Longrightarrow> \<exists>splits. kd_sort_splits K I xs rs splits"
proof (induction rule: kd_sort.induct)
  case (kd_sort_return xs I)
  then show ?case by (blast intro: kd_sort_splits_return)
next
  case (kd_sort_recurse xs pivot I ys zs p right left)
  from kd_sort_recurse.IH obtain sr sl where
    "kd_sort_splits K (incr_wrap K I) (drop (p + 1) (zs @ drop pivot ys)) right sr"
    "kd_sort_splits K (incr_wrap K I) (take p (zs @ drop pivot ys)) left sl"
    by blast
  from kd_sort_splits_recurse[OF kd_sort_recurse.hyps(1-4) this] show ?case
    by blast
qed

lemma kd_sort_splits_entry:
  assumes "kd_sort_splits K I xs rs splits" and "(J, ys, zs, p) \<in> set splits"
  shows "\<exists>us. length us > 1 \<and> set us \<subseteq> set xs \<and> (I < K \<longrightarrow> J < K) \<and>
           nth_element_post (kd_less K J 0) us (midpos 0 (length us)) ys \<and>
           partition_post (\<lambda>x. kd_less K J 0 x (ys ! midpos 0 (length us)))
             (take (midpos 0 (length us)) ys) zs p"
  using assms
proof (induction rule: kd_sort_splits.induct)
  case (kd_sort_splits_return xs I)
  then show ?case by simp
next
  case (kd_sort_splits_recurse xs pivot I ys' zs' p' right sr left sl)
  let ?w = "zs' @ drop pivot ys'"
  note f = kd_sort_step_facts[OF kd_sort_splits_recurse.hyps(1-4)]
  have sw: "set ?w = set xs"
    using f(6) by (rule mset_eq_setD)
  have J: "I < K \<longrightarrow> incr_wrap K I < K"
    by (simp add: incr_wrap_def)
  from kd_sort_splits_recurse.prems consider
    "(J, ys, zs, p) = (I, ys', zs', p')" | "(J, ys, zs, p) \<in> set sr" | "(J, ys, zs, p) \<in> set sl"
    by auto
  then show ?case
  proof cases
    case 1
    with kd_sort_splits_recurse.hyps(1-4) show ?thesis
      by (intro exI[of _ xs]) simp
  next
    case 2
    from kd_sort_splits_recurse.IH(1)[OF this] obtain us where
      us: "length us > 1" "set us \<subseteq> set (drop (p' + 1) ?w)" "incr_wrap K I < K \<longrightarrow> J < K"
        "nth_element_post (kd_less K J 0) us (midpos 0 (length us)) ys"
        "partition_post (\<lambda>x. kd_less K J 0 x (ys ! midpos 0 (length us)))
           (take (midpos 0 (length us)) ys) zs p"
      by blast
    from us(2) sw have "set us \<subseteq> set xs"
      using set_drop_subset[of "p' + 1" ?w] by blast
    with us(1,3,4,5) J show ?thesis
      by (intro exI[of _ us]) simp
  next
    case 3
    from kd_sort_splits_recurse.IH(2)[OF this] obtain us where
      us: "length us > 1" "set us \<subseteq> set (take p' ?w)" "incr_wrap K I < K \<longrightarrow> J < K"
        "nth_element_post (kd_less K J 0) us (midpos 0 (length us)) ys"
        "partition_post (\<lambda>x. kd_less K J 0 x (ys ! midpos 0 (length us)))
           (take (midpos 0 (length us)) ys) zs p"
      by blast
    from us(2) sw have "set us \<subseteq> set xs"
      using set_take_subset[of p' ?w] by blast
    with us(1,3,4,5) J show ?thesis
      by (intro exI[of _ us]) simp
  qed
qed

text \<open>
  The first entry of the record is the split of the outermost call, and the result
  shows it: the position \<open>p\<close> holds the element that the split put there, and before it
  stand the elements that the split put before it.
\<close>

lemma kd_sort_splits_top:
  assumes "kd_sort_splits K I xs rs ((J, ys, zs, p) # others)"
  shows "J = I \<and> mset ys = mset xs \<and> p < length rs \<and>
         mset (take p rs) = mset (take p zs) \<and>
         rs ! p = (zs @ drop (midpos 0 (length ys)) ys) ! p"
  using assms
proof (cases rule: kd_sort_splits.cases)
  case (kd_sort_splits_recurse pivot right sr left sl)
  let ?w = "zs @ drop pivot ys"
  note f = kd_sort_step_facts[OF kd_sort_splits_recurse(4-7)]
  have ll: "length left = p"
    using kd_sort_length[OF kd_sort_splits_erase[OF kd_sort_splits_recurse(9)]] f(5) by simp
  have ml: "mset left = mset (take p ?w)"
    using kd_sort_mset[OF kd_sort_splits_erase[OF kd_sort_splits_recurse(9)]] .
  have tw: "take p ?w = take p zs"
    using f(3,4) by simp
  have m: "midpos 0 (length ys) = pivot"
    using f(1) kd_sort_splits_recurse(5) by simp
  have my: "mset ys = mset xs"
    using kd_sort_splits_recurse(6) by (simp add: nth_element_post_def)
  from kd_sort_splits_recurse(1,2,3) ll ml tw m my show ?thesis
    by (simp add: nth_append)
qed

text \<open>
  C8, as amended. The runs of \<open>kd_sort\<close> are the runs of \<open>kd_sort_splits\<close>; the first
  entry of the record is the split of the outermost call, whose position \<open>p\<close> and
  elements before \<open>p\<close> are those of the result. At each recursive level, that is in
  every entry \<open>(J, ys, zs, p)\<close> of the record, with \<open>m = midpos(first, last)\<close> and the
  selected pivot value \<open>ys[m]\<close>: the re-partitioned \<open>[first, m)\<close> is a permutation \<open>zs\<close>
  of what \<open>nth_element\<close> left there; its first \<open>p\<close> elements are exactly the elements of
  the range that are strictly less than the pivot value under \<open>kd_less<J>\<close>, in whatever
  order \<open>std::partition\<close> leaves them; the elements behind them are neither below nor
  above the pivot value (they are copies of it, when the tuples have \<open>K\<close> components);
  and \<open>p \<le> m\<close> is the first position whose element is not less than the pivot value.
\<close>

theorem kd_sort_partition_split:
  "(kd_sort K I xs rs \<longleftrightarrow> (\<exists>splits. kd_sort_splits K I xs rs splits)) \<and>
   (\<forall>J ys zs p others. kd_sort_splits K I xs rs ((J, ys, zs, p) # others) \<longrightarrow>
      J = I \<and> mset ys = mset xs \<and> p < length rs \<and>
      mset (take p rs) = mset (take p zs) \<and>
      rs ! p = (zs @ drop (midpos 0 (length ys)) ys) ! p) \<and>
   (\<forall>splits J ys zs p. kd_sort_splits K I xs rs splits \<and> (J, ys, zs, p) \<in> set splits \<longrightarrow>
      (let m = midpos 0 (length ys); pv = ys ! m in
         mset zs = mset (take m ys) \<and> p \<le> m \<and>
         mset (take p zs) = filter_mset (\<lambda>x. kd_less K J 0 x pv) (mset (take m ys)) \<and>
         (\<forall>x \<in> set (take p zs). kd_less K J 0 x pv) \<and>
         (\<forall>x \<in> set (drop p zs). \<not> kd_less K J 0 x pv \<and> \<not> kd_less K J 0 pv x) \<and>
         \<not> kd_less K J 0 ((zs @ drop m ys) ! p) pv \<and>
         ((\<forall>x \<in> set xs. length x = K) \<and> I < K \<longrightarrow> drop p zs = replicate (m - p) pv)))"
proof -
  have runs: "kd_sort K I xs rs \<longleftrightarrow> (\<exists>splits. kd_sort_splits K I xs rs splits)"
    using kd_sort_splits_erase kd_sort_splits_exist by blast
  have outer: "\<forall>J ys zs p others. kd_sort_splits K I xs rs ((J, ys, zs, p) # others) \<longrightarrow>
      J = I \<and> mset ys = mset xs \<and> p < length rs \<and>
      mset (take p rs) = mset (take p zs) \<and>
      rs ! p = (zs @ drop (midpos 0 (length ys)) ys) ! p"
    by (intro allI impI) (rule kd_sort_splits_top)
  have level: "\<forall>splits J ys zs p.
      kd_sort_splits K I xs rs splits \<and> (J, ys, zs, p) \<in> set splits \<longrightarrow>
      (let m = midpos 0 (length ys); pv = ys ! m in
         mset zs = mset (take m ys) \<and> p \<le> m \<and>
         mset (take p zs) = filter_mset (\<lambda>x. kd_less K J 0 x pv) (mset (take m ys)) \<and>
         (\<forall>x \<in> set (take p zs). kd_less K J 0 x pv) \<and>
         (\<forall>x \<in> set (drop p zs). \<not> kd_less K J 0 x pv \<and> \<not> kd_less K J 0 pv x) \<and>
         \<not> kd_less K J 0 ((zs @ drop m ys) ! p) pv \<and>
         ((\<forall>x \<in> set xs. length x = K) \<and> I < K \<longrightarrow> drop p zs = replicate (m - p) pv))"
  proof (intro allI impI)
    fix splits J ys zs p
    assume "kd_sort_splits K I xs rs splits \<and> (J, ys, zs, p) \<in> set splits"
    then have "\<exists>us. length us > 1 \<and> set us \<subseteq> set xs \<and> (I < K \<longrightarrow> J < K) \<and>
             nth_element_post (kd_less K J 0) us (midpos 0 (length us)) ys \<and>
             partition_post (\<lambda>x. kd_less K J 0 x (ys ! midpos 0 (length us)))
               (take (midpos 0 (length us)) ys) zs p"
      by (blast intro: kd_sort_splits_entry)
    then obtain us where
      us: "length us > 1" "set us \<subseteq> set xs" "I < K \<longrightarrow> J < K"
        "nth_element_post (kd_less K J 0) us (midpos 0 (length us)) ys"
        "partition_post (\<lambda>x. kd_less K J 0 x (ys ! midpos 0 (length us)))
           (take (midpos 0 (length us)) ys) zs p"
      by blast
    have ly: "length ys = length us"
      using us(4) by (auto simp: nth_element_post_def dest: mset_eq_length)
    note st = partition_split_step[OF us(1) refl us(4,5)]
    have "(\<forall>x \<in> set xs. length x = K) \<and> I < K \<longrightarrow> (\<forall>x \<in> set us. length x = K) \<and> J < K"
      using us(2,3) by blast
    with st show "let m = midpos 0 (length ys); pv = ys ! m in
           mset zs = mset (take m ys) \<and> p \<le> m \<and>
           mset (take p zs) = filter_mset (\<lambda>x. kd_less K J 0 x pv) (mset (take m ys)) \<and>
           (\<forall>x \<in> set (take p zs). kd_less K J 0 x pv) \<and>
           (\<forall>x \<in> set (drop p zs). \<not> kd_less K J 0 x pv \<and> \<not> kd_less K J 0 pv x) \<and>
           \<not> kd_less K J 0 ((zs @ drop m ys) ! p) pv \<and>
           ((\<forall>x \<in> set xs. length x = K) \<and> I < K \<longrightarrow> drop p zs = replicate (m - p) pv)"
      unfolding Let_def ly by blast
  qed
  from runs outer level show ?thesis
    by (intro conjI)
qed

text \<open>
  A run on \<open>(3), (1), (2), (3), (4), (5)\<close> (arity 1): the median \<open>(3)\<close> is in place at
  position 3, \<open>[first, 3)\<close> holds a copy of it, and \<open>partition\<close> swaps that copy with
  \<open>(2)\<close>, as the usual two-pointer implementation does.
\<close>

lemma kd_sort_splits_example:
  "kd_sort_splits 1 0 [[3], [1], [2], [3], [4], [5::int]] [[1], [2], [3], [3], [4], [5]]
     [(0, [[3], [1], [2], [3], [4], [5]], [[2], [1], [3]], 2),
      (0, [[3], [4], [5]], [[3]], 1),
      (0, [[1], [2]], [[1]], 1)]"
proof -
  let ?xs = "[[3], [1], [2], [3], [4], [5::int]]"
  let ?zs = "[[2], [1], [3::int]]"
  have one: "kd_sort_splits 1 0 [x] [x] []" for x :: "int list"
    using kd_sort_splits_return[of "[x]" 1 0] by simp
  have none: "kd_sort_splits 1 0 [] ([] :: int list list) []"
    using kd_sort_splits_return[of "[]::int list list" 1 0] by simp
  have r: "kd_sort_splits 1 0 [[3], [4], [5::int]] [[3], [4], [5]] [(0, [[3], [4], [5]], [[3]], 1)]"
  proof -
    let ?us = "[[3], [4], [5::int]]"
    have "kd_sort_splits 1 0 ?us ([[3]] @ [([[3]] @ drop 1 ?us) ! 1] @ [[5]])
        ((0, ?us, [[3]], 1) # [] @ [])"
    proof (rule kd_sort_splits_recurse[where pivot = 1])
      show "1 < length ?us" by simp
      show "1 = midpos 0 (length ?us)" by (simp add: midpos_def)
      show "nth_element_post (kd_less 1 0 0) ?us 1 ?us"
        by (simp add: nth_element_post_def prim_eval)
      show "partition_post (\<lambda>x. kd_less 1 0 0 x (?us ! 1)) (take 1 ?us) [[3]] 1"
        by (simp add: partition_post_def prim_eval)
      show "kd_sort_splits 1 (incr_wrap 1 0) (drop (1 + 1) ([[3]] @ drop 1 ?us)) [[5]] []"
        using one[of "[5]"] by (simp add: incr_wrap_def)
      show "kd_sort_splits 1 (incr_wrap 1 0) (take 1 ([[3]] @ drop 1 ?us)) [[3]] []"
        using one[of "[3]"] by (simp add: incr_wrap_def)
    qed
    then show ?thesis by simp
  qed
  have l: "kd_sort_splits 1 0 [[2], [1::int]] [[1], [2]] [(0, [[1], [2]], [[1]], 1)]"
  proof -
    let ?us = "[[2], [1::int]]"
    let ?vs = "[[1], [2::int]]"
    have "kd_sort_splits 1 0 ?us ([[1]] @ [([[1]] @ drop 1 ?vs) ! 1] @ [])
        ((0, ?vs, [[1]], 1) # [] @ [])"
    proof (rule kd_sort_splits_recurse[where pivot = 1])
      show "1 < length ?us" by simp
      show "1 = midpos 0 (length ?us)" by (simp add: midpos_def)
      show "nth_element_post (kd_less 1 0 0) ?us 1 ?vs"
        by (simp add: nth_element_post_def prim_eval)
      show "partition_post (\<lambda>x. kd_less 1 0 0 x (?vs ! 1)) (take 1 ?vs) [[1]] 1"
        by (simp add: partition_post_def prim_eval)
      show "kd_sort_splits 1 (incr_wrap 1 0) (drop (1 + 1) ([[1]] @ drop 1 ?vs)) [] []"
        using none by (simp add: incr_wrap_def)
      show "kd_sort_splits 1 (incr_wrap 1 0) (take 1 ([[1]] @ drop 1 ?vs)) [[1]] []"
        using one[of "[1]"] by (simp add: incr_wrap_def)
    qed
    then show ?thesis by simp
  qed
  have "kd_sort_splits 1 0 ?xs ([[1], [2]] @ [(?zs @ drop 3 ?xs) ! 2] @ [[3], [4], [5]])
      ((0, ?xs, ?zs, 2) # [(0, [[3], [4], [5]], [[3]], 1)] @ [(0, [[1], [2]], [[1]], 1)])"
  proof (rule kd_sort_splits_recurse[where pivot = 3])
    show "1 < length ?xs" by simp
    show "3 = midpos 0 (length ?xs)" by (simp add: midpos_def)
    show "nth_element_post (kd_less 1 0 0) ?xs 3 ?xs"
      by (simp add: nth_element_post_def prim_eval)
    show "partition_post (\<lambda>x. kd_less 1 0 0 x (?xs ! 3)) (take 3 ?xs) ?zs 2"
      by (simp add: partition_post_def prim_eval)
    show "kd_sort_splits 1 (incr_wrap 1 0) (drop (2 + 1) (?zs @ drop 3 ?xs)) [[3], [4], [5]]
        [(0, [[3], [4], [5]], [[3]], 1)]"
      using r by (simp add: incr_wrap_def)
    show "kd_sort_splits 1 (incr_wrap 1 0) (take 2 (?zs @ drop 3 ?xs)) [[1], [2]]
        [(0, [[1], [2]], [[1]], 1)]"
      using l by (simp add: incr_wrap_def)
  qed
  then show ?thesis by simp
qed

theorem kd_sort_partition_split_witness:
  "kd_sort 1 0 [[3], [1], [2], [3], [4], [5::int]] [[1], [2], [3], [3], [4], [5]] \<and>
   kd_sort_splits 1 0 [[3], [1], [2], [3], [4], [5::int]] [[1], [2], [3], [3], [4], [5]]
     [(0, [[3], [1], [2], [3], [4], [5]], [[2], [1], [3]], 2),
      (0, [[3], [4], [5]], [[3]], 1),
      (0, [[1], [2]], [[1]], 1)] \<and>
   mset (take 2 [[1], [2], [3], [3], [4], [5::int]]) = mset (take 2 [[2], [1], [3]]) \<and>
   mset [[2], [1], [3::int]] = mset (take 3 [[3], [1], [2], [3], [4], [5]]) \<and>
   mset (take 2 [[2], [1], [3::int]]) =
     filter_mset (\<lambda>x. kd_less 1 0 0 x [3]) (mset (take 3 [[3], [1], [2], [3], [4], [5]])) \<and>
   \<not> kd_less 1 0 0 (([[2], [1], [3::int]] @ drop 3 [[3], [1], [2], [3], [4], [5]]) ! 2) [3] \<and>
   drop 2 [[2], [1], [3::int]] = replicate (3 - 2) [3]"
proof -
  let ?xs = "[[3], [1], [2], [3], [4], [5::int]]"
  let ?rs = "[[1], [2], [3], [3], [4], [5::int]]"
  let ?zs = "[[2], [1], [3::int]]"
  let ?sp = "[(0, ?xs, ?zs, 2), (0, [[3], [4], [5]], [[3]], 1), (0, [[1], [2]], [[1]], 1)]"
  note t = kd_sort_partition_split[of 1 0 ?xs ?rs]
  have ex: "kd_sort_splits 1 0 ?xs ?rs ?sp"
    by (rule kd_sort_splits_example)
  have mem: "(0, ?xs, ?zs, 2) \<in> set ?sp"
    by simp
  have len: "(\<forall>x \<in> set ?xs. length x = 1) \<and> (0::nat) < 1"
    by simp
  from t ex have a: "kd_sort 1 0 ?xs ?rs"
    by blast
  from t ex have o: "mset (take 2 ?rs) = mset (take 2 ?zs)"
    by blast
  from t ex mem have "let m = midpos 0 (length ?xs); pv = ?xs ! m in
         mset ?zs = mset (take m ?xs) \<and> 2 \<le> m \<and>
         mset (take 2 ?zs) = filter_mset (\<lambda>x. kd_less 1 0 0 x pv) (mset (take m ?xs)) \<and>
         (\<forall>x \<in> set (take 2 ?zs). kd_less 1 0 0 x pv) \<and>
         (\<forall>x \<in> set (drop 2 ?zs). \<not> kd_less 1 0 0 x pv \<and> \<not> kd_less 1 0 0 pv x) \<and>
         \<not> kd_less 1 0 0 ((?zs @ drop m ?xs) ! 2) pv \<and>
         ((\<forall>x \<in> set ?xs. length x = 1) \<and> 0 < (1::nat) \<longrightarrow> drop 2 ?zs = replicate (m - 2) pv)"
    by blast
  moreover have "midpos 0 (length ?xs) = 3" "?xs ! 3 = [3]"
    by (simp_all add: midpos_def)
  ultimately have
    "mset ?zs = mset (take 3 ?xs) \<and>
     mset (take 2 ?zs) = filter_mset (\<lambda>x. kd_less 1 0 0 x [3]) (mset (take 3 ?xs)) \<and>
     \<not> kd_less 1 0 0 ((?zs @ drop 3 ?xs) ! 2) [3] \<and>
     drop 2 ?zs = replicate (3 - 2) [3]"
    using len unfolding Let_def by metis
  with a o ex show ?thesis
    by blast
qed

text \<open>
  C8 as stated fails: \<open>std::partition\<close> is not \<open>std::stable_partition\<close>. In the run
  above the elements of \<open>[first, 3)\<close> below the pivot value are \<open>(1), (2)\<close> in this order
  before the re-partitioning and \<open>(2), (1)\<close> after it.
\<close>

theorem kd_sort_partition_split_counterexample:
  "kd_sort_splits 1 0 [[3], [1], [2], [3], [4], [5::int]] [[1], [2], [3], [3], [4], [5]]
     [(0, [[3], [1], [2], [3], [4], [5]], [[2], [1], [3]], 2),
      (0, [[3], [4], [5]], [[3]], 1),
      (0, [[1], [2]], [[1]], 1)] \<and>
   filter (\<lambda>x. kd_less 1 0 0 x ([[3], [1], [2], [3], [4], [5::int]] ! 3))
     (take 3 [[3], [1], [2], [3], [4], [5]]) = [[1], [2]] \<and>
   take 2 [[2], [1], [3::int]] = [[2], [1]] \<and>
   take 2 [[2], [1], [3::int]] \<noteq>
     filter (\<lambda>x. kd_less 1 0 0 x ([[3], [1], [2], [3], [4], [5::int]] ! 3))
       (take 3 [[3], [1], [2], [3], [4], [5]])"
proof -
  have "filter (\<lambda>x. kd_less 1 0 0 x ([[3], [1], [2], [3], [4], [5::int]] ! 3))
     (take 3 [[3], [1], [2], [3], [4], [5]]) = [[1], [2]]"
    by (simp add: prim_eval)
  with kd_sort_splits_example show ?thesis
    by simp
qed

section \<open>Properties of the queries\<close>

lemma l2dist_nonneg: "0 \<le> l2dist K a b"
proof -
  have "0 \<le> sum_of_squares_rec K I a b" for I
  proof (induction K I a b rule: sum_of_squares_rec.induct)
    case (1 K I lhs rhs)
    then show ?case
      by (subst sum_of_squares_rec.simps) auto
  qed
  then show ?thesis
    by (simp add: l2dist_def sum_of_squares_def)
qed

text \<open>
  C9: called with \<open>eps = 0\<close>, the overload with \<open>eps\<close> returns exactly what the exact
  overload returns, on every storage, range and query value (k-d-sorted or not).
\<close>

theorem kd_nearest_neighbor_eps_zero:
  "kd_nearest_neighbor_eps K I S first lst v 0 = kd_nearest_neighbor K I S first lst v"
proof (cases "lst - first > 1")
  case False
  then show ?thesis
    unfolding kd_nearest_neighbor_eps_def
    by (subst kd_nearest_neighbor.simps) simp
next
  case big: True
  have nn: "\<not> l2dist K a v < 0" for a
    using l2dist_nonneg[of K a v] by simp
  show ?thesis
  proof (cases "find_pivot I S first lst")
    case None
    with big show ?thesis
      unfolding kd_nearest_neighbor_eps_def
      by (subst kd_nearest_neighbor.simps) simp
  next
    case fp: (Some pivot)
    show ?thesis
    proof (cases "deref S pivot")
      case None
      with big fp show ?thesis
        unfolding kd_nearest_neighbor_eps_def
        by (subst kd_nearest_neighbor.simps) simp
    next
      case pv: (Some pv)
      show ?thesis
      proof (cases "if less_nth I v pv
               then kd_nearest_neighbor K (incr_wrap K I) S first pivot v
               else kd_nearest_neighbor K (incr_wrap K I) S (pivot + 1) lst v")
        case None
        with big fp pv show ?thesis
          unfolding kd_nearest_neighbor_eps_def
          by (subst kd_nearest_neighbor.simps) (simp add: nn Let_def)
      next
        case near: (Some search0)
        show ?thesis
        proof (cases "search0 = lst")
          case True
          with big fp pv near show ?thesis
            unfolding kd_nearest_neighbor_eps_def
            by (subst kd_nearest_neighbor.simps) (simp add: nn Let_def)
        next
          case ne: False
          show ?thesis
          proof (cases "deref S search0")
            case None
            with big fp pv near ne show ?thesis
              unfolding kd_nearest_neighbor_eps_def
              by (subst kd_nearest_neighbor.simps) (simp add: nn Let_def)
          next
            case (Some sv)
            with big fp pv near ne show ?thesis
              unfolding kd_nearest_neighbor_eps_def
              by (subst kd_nearest_neighbor.simps) (simp add: nn Let_def)
          qed
        qed
      qed
    qed
  qed
qed

subsection \<open>Distances\<close>

lemma sum_of_squares_rec_nonneg: "0 \<le> sum_of_squares_rec K I a b"
proof (induction K I a b rule: sum_of_squares_rec.induct)
  case (1 K I lhs rhs)
  then show ?case
    by (subst sum_of_squares_rec.simps) auto
qed

lemma axis_le_sum_of_squares_rec:
  "J \<le> I \<Longrightarrow> I < K \<Longrightarrow> (get I a - get I b)\<^sup>2 \<le> sum_of_squares_rec K J a b"
proof (induction K J a b rule: sum_of_squares_rec.induct)
  case (1 K J lhs rhs)
  show ?case
  proof (cases "J = I")
    case True
    then show ?thesis
      using sum_of_squares_rec_nonneg[of K "I + 1" lhs rhs]
      by (subst sum_of_squares_rec.simps) auto
  next
    case False
    with "1.prems" have c: "is_not_last K J \<and> J < K" and "J + 1 \<le> I"
      by (auto simp: is_not_last_def)
    from "1.IH"[OF c \<open>J + 1 \<le> I\<close> "1.prems"(2)]
    have "(get I lhs - get I rhs)\<^sup>2 \<le> sum_of_squares_rec K (J + 1) lhs rhs" .
    moreover have "sum_of_squares_rec K J lhs rhs =
        (get J lhs - get J rhs)\<^sup>2 + sum_of_squares_rec K (J + 1) lhs rhs"
      using c by (subst sum_of_squares_rec.simps) simp
    ultimately show ?thesis
      using zero_le_power2[of "get J lhs - get J rhs"] by linarith
  qed
qed

lemma abs_le_sqrt_iff: "\<bar>x\<bar> \<le> sqrt s \<longleftrightarrow> x\<^sup>2 \<le> s"
  by (metis real_sqrt_abs real_sqrt_le_iff)

lemma axis_le_l2dist: "I < K \<Longrightarrow> \<bar>get I v - get I pv\<bar> \<le> l2dist K pv v"
  using axis_le_sum_of_squares_rec[of 0 I K pv v]
  by (simp add: l2dist_def sum_of_squares_def abs_le_sqrt_iff power2_commute)

subsection \<open>The queue\<close>

lemma pq_top_max: "qs \<noteq> [] \<Longrightarrow> e \<in> set qs \<Longrightarrow> fst e \<le> fst (pq_top qs)"
  by (induction qs rule: pq_top.induct) (auto simp: Let_def)

lemma set_pq_pop: "set (pq_pop qs) \<subseteq> set qs"
  by (simp add: pq_pop_def set_remove1_subset)

lemma length_pq_pop_eq: "qs \<noteq> [] \<Longrightarrow> length (pq_pop qs) = length qs - 1"
  by (simp add: pq_pop_def length_remove1 pq_top_in)

text \<open>
  How \<open>nb'\<close> can differ from \<open>nb\<close> after any number of calls of \<open>add\<close> with positions
  of \<open>S\<close> and their distances to \<open>v\<close>.
\<close>

definition queue_extends ::
  "nat \<Rightarrow> real tuple list \<Rightarrow> real tuple \<Rightarrow> n_best \<Rightarrow> n_best \<Rightarrow> bool" where
  "queue_extends K S v nb nb' \<longleftrightarrow>
     m_n nb' = m_n nb \<and>
     length (q nb) \<le> length (q nb') \<and>
     (length (q nb') < m_n nb \<longrightarrow> set (q nb) \<subseteq> set (q nb')) \<and>
     (length (q nb) \<le> m_n nb \<longrightarrow> length (q nb') \<le> m_n nb) \<and>
     (\<forall>e \<in> set (q nb'). e \<in> set (q nb) \<or>
        (snd e < length S \<and> fst e = l2dist K (S ! snd e) v))"

lemma queue_extends_refl: "queue_extends K S v nb nb"
  by (simp add: queue_extends_def)

lemma queue_extends_trans:
  "queue_extends K S v nb nb1 \<Longrightarrow> queue_extends K S v nb1 nb2 \<Longrightarrow> queue_extends K S v nb nb2"
  unfolding queue_extends_def by (intro conjI; fastforce)

lemma queue_extends_add:
  assumes "it < length S"
  shows "queue_extends K S v nb (add (l2dist K (S ! it) v) it nb)"
proof (cases "length (q nb) + 1 > m_n nb")
  case False
  then show ?thesis
    using assms by (auto simp: queue_extends_def add_def Let_def)
next
  case True
  let ?q1 = "q nb @ [(l2dist K (S ! it) v, it)]"
  have q': "q (add (l2dist K (S ! it) v) it nb) = pq_pop ?q1"
    and m': "m_n (add (l2dist K (S ! it) v) it nb) = m_n nb"
    using True by (simp_all add: add_def Let_def)
  have len: "length (pq_pop ?q1) = length (q nb)"
    using length_pq_pop_eq[of ?q1] by simp
  have sub: "set (pq_pop ?q1) \<subseteq> insert (l2dist K (S ! it) v, it) (set (q nb))"
    using set_pq_pop[of ?q1] by auto
  show ?thesis
    unfolding queue_extends_def q' m' len
    using True sub assms by auto
qed

lemma deref_Some: "deref S it = Some x \<longleftrightarrow> it < length S \<and> x = S ! it"
  by (auto simp: deref_def)

subsection \<open>One step of \<open>knn\<close>\<close>

lemma knn_zero: "lst - first = 0 \<Longrightarrow> knn K I S first lst v nb = Some nb"
  by (subst knn.simps) simp

lemma knn_one:
  "lst - first = 1 \<Longrightarrow> deref S first = Some x \<Longrightarrow>
   knn K I S first lst v nb = Some (add (l2dist K x v) first nb)"
  by (subst knn.simps) simp

lemma knn_many:
  assumes "lst - first > 1" and "find_pivot I S first lst = Some pivot"
    and "deref S pivot = Some pv"
  shows "knn K I S first lst v nb =
     (case (if less_nth I v pv
            then knn K (incr_wrap K I) S first pivot v (add (l2dist K pv v) pivot nb)
            else knn K (incr_wrap K I) S (pivot + 1) lst v (add (l2dist K pv v) pivot nb)) of
        None \<Rightarrow> None
      | Some nb2 \<Rightarrow>
          if \<bar>get I v - get I pv\<bar> \<le> max_key nb2 then
            (if less_nth I v pv
             then knn K (incr_wrap K I) S (pivot + 1) lst v nb2
             else knn K (incr_wrap K I) S first pivot v nb2)
          else Some nb2)"
proof -
  from assms(1) have "lst - first \<noteq> 1" and "\<not> lst \<le> first"
    by simp_all
  with assms show ?thesis
    by (subst knn.simps) (simp add: Let_def)
qed

lemma knn_none:
  "lst - first = 1 \<Longrightarrow> deref S first = None \<Longrightarrow> knn K I S first lst v nb = None"
  "lst - first > 1 \<Longrightarrow> find_pivot I S first lst = None \<Longrightarrow> knn K I S first lst v nb = None"
  "lst - first > 1 \<Longrightarrow> find_pivot I S first lst = Some pivot \<Longrightarrow> deref S pivot = None \<Longrightarrow>
   knn K I S first lst v nb = None"
proof -
  show "lst - first = 1 \<Longrightarrow> deref S first = None \<Longrightarrow> knn K I S first lst v nb = None"
    by (subst knn.simps) simp
  have ne: "lst - first \<noteq> 1 \<and> \<not> lst \<le> first" if "lst - first > 1"
    using that by simp
  show "lst - first > 1 \<Longrightarrow> find_pivot I S first lst = None \<Longrightarrow>
      knn K I S first lst v nb = None"
    using ne by (subst knn.simps) simp
  show "lst - first > 1 \<Longrightarrow> find_pivot I S first lst = Some pivot \<Longrightarrow>
      deref S pivot = None \<Longrightarrow> knn K I S first lst v nb = None"
    using ne by (subst knn.simps) simp
qed

lemma knn_queue_extends:
  "knn K I S first lst v nb = Some nb' \<Longrightarrow> queue_extends K S v nb nb'"
proof (induction "lst - first" arbitrary: I first lst nb nb' rule: less_induct)
  case less
  consider "lst - first = 0" | "lst - first = 1" | "lst - first > 1"
    by linarith
  then show ?case
  proof cases
    case 1
    with less.prems show ?thesis
      by (simp add: knn_zero queue_extends_refl)
  next
    case 2
    show ?thesis
    proof (cases "deref S first")
      case None
      with 2 less.prems show ?thesis by (simp add: knn_none)
    next
      case (Some x)
      with 2 less.prems have "nb' = add (l2dist K x v) first nb"
        by (simp add: knn_one)
      with Some show ?thesis
        by (auto simp: deref_Some intro: queue_extends_add)
    qed
  next
    case 3
    show ?thesis
    proof (cases "find_pivot I S first lst")
      case None
      with 3 less.prems show ?thesis by (simp add: knn_none)
    next
      case fp: (Some pivot)
      note b = find_pivot_bounds[OF fp 3]
      show ?thesis
      proof (cases "deref S pivot")
        case None
        with 3 fp less.prems show ?thesis by (simp add: knn_none)
      next
        case pv: (Some pv)
        let ?nb1 = "add (l2dist K pv v) pivot nb"
        let ?near = "if less_nth I v pv
            then knn K (incr_wrap K I) S first pivot v ?nb1
            else knn K (incr_wrap K I) S (pivot + 1) lst v ?nb1"
        have e1: "queue_extends K S v nb ?nb1"
          using pv by (auto simp: deref_Some intro: queue_extends_add)
        note step = knn_many[OF 3 fp pv, of K v nb]
        show ?thesis
        proof (cases ?near)
          case None
          with step less.prems show ?thesis by simp
        next
          case near: (Some nb2)
          have e2: "queue_extends K S v ?nb1 nb2"
          proof (cases "less_nth I v pv")
            case True
            with near have "knn K (incr_wrap K I) S first pivot v ?nb1 = Some nb2" by simp
            moreover have "pivot - first < lst - first" using b by simp
            ultimately show ?thesis by (rule less.hyps[rotated])
          next
            case False
            with near have "knn K (incr_wrap K I) S (pivot + 1) lst v ?nb1 = Some nb2" by simp
            moreover have "lst - (pivot + 1) < lst - first" using b by simp
            ultimately show ?thesis by (rule less.hyps[rotated])
          qed
          note e12 = queue_extends_trans[OF e1 e2]
          show ?thesis
          proof (cases "\<bar>get I v - get I pv\<bar> \<le> max_key nb2")
            case False
            with step near less.prems have "nb' = nb2" by simp
            with e12 show ?thesis by simp
          next
            case test: True
            have e3: "queue_extends K S v nb2 nb'"
            proof (cases "less_nth I v pv")
              case True
              with step near test less.prems
              have "knn K (incr_wrap K I) S (pivot + 1) lst v nb2 = Some nb'" by simp
              moreover have "lst - (pivot + 1) < lst - first" using b by simp
              ultimately show ?thesis by (rule less.hyps[rotated])
            next
              case False
              with step near test less.prems
              have "knn K (incr_wrap K I) S first pivot v nb2 = Some nb'" by simp
              moreover have "pivot - first < lst - first" using b by simp
              ultimately show ?thesis by (rule less.hyps[rotated])
            qed
            from queue_extends_trans[OF e12 e3] show ?thesis .
          qed
        qed
      qed
    qed
  qed
qed

subsection \<open>Reads inside the storage succeed\<close>

lemma partition_point_loop_total:
  "first + len \<le> length S \<Longrightarrow> \<exists>r. partition_point_loop S pred first len = Some r"
proof (induction S pred first len rule: partition_point_loop.induct)
  case (1 S pred first len)
  show ?case
  proof (cases "len > 0")
    case False
    then show ?thesis by (subst partition_point_loop.simps) simp
  next
    case True
    with "1.prems" have d: "deref S (first + len div 2) = Some (S ! (first + len div 2))"
      by (simp add: deref_def)
    show ?thesis
    proof (cases "pred (S ! (first + len div 2))")
      case p: True
      have "first + len div 2 + 1 + (len - len div 2 - 1) \<le> length S"
        using "1.prems" True by simp
      from "1.IH"(1)[OF True refl refl d p this] True d p show ?thesis
        by (subst partition_point_loop.simps) (simp add: Let_def)
    next
      case p: False
      have "first + len div 2 \<le> length S"
        using "1.prems" by simp
      from "1.IH"(2)[OF True refl refl d p this] True d p show ?thesis
        by (subst partition_point_loop.simps) (simp add: Let_def)
    qed
  qed
qed

lemma find_pivot_total:
  assumes "lst \<le> length S" and "lst - first > 1"
  shows "\<exists>p. find_pivot I S first lst = Some p \<and> first \<le> p \<and> p < lst"
proof -
  have m: "midpos first lst < lst" and m2: "first \<le> midpos first lst"
    using assms(2) by (simp_all add: midpos_def)
  with assms(1) have d: "deref S (midpos first lst) = Some (S ! midpos first lst)"
    by (simp add: deref_def)
  have "first + (midpos first lst - first) \<le> length S"
    using m m2 assms(1) by simp
  from partition_point_loop_total[OF this] obtain r where
    "partition_point_loop S (\<lambda>x. less_nth I x (S ! midpos first lst)) first
       (midpos first lst - first) = Some r"
    by blast
  with d have fp: "find_pivot I S first lst = Some r"
    by (simp add: find_pivot_def partition_point_def Let_def)
  with find_pivot_bounds[OF fp assms(2)] show ?thesis by simp
qed

lemma knn_total: "lst \<le> length S \<Longrightarrow> \<exists>nb'. knn K I S first lst v nb = Some nb'"
proof (induction "lst - first" arbitrary: I first lst nb rule: less_induct)
  case less
  consider "lst - first = 0" | "lst - first = 1" | "lst - first > 1"
    by linarith
  then show ?case
  proof cases
    case 1
    then show ?thesis by (simp add: knn_zero)
  next
    case 2
    with less.prems have "deref S first = Some (S ! first)"
      by (simp add: deref_def)
    with 2 show ?thesis by (simp add: knn_one)
  next
    case 3
    from find_pivot_total[OF less.prems 3] obtain pivot where
      fp: "find_pivot I S first lst = Some pivot" and b: "first \<le> pivot" "pivot < lst"
      by blast
    from b less.prems have pv: "deref S pivot = Some (S ! pivot)"
      by (simp add: deref_def)
    have l: "\<exists>nb'. knn K (incr_wrap K I) S first pivot v nb0 = Some nb'" for nb0
      using b less.prems by (intro less.hyps) simp_all
    have r: "\<exists>nb'. knn K (incr_wrap K I) S (pivot + 1) lst v nb0 = Some nb'" for nb0
      using b less.prems by (intro less.hyps) simp_all
    let ?nb1 = "add (l2dist K (S ! pivot) v) pivot nb"
    obtain nb2 where near: "(if less_nth I v (S ! pivot)
            then knn K (incr_wrap K I) S first pivot v ?nb1
            else knn K (incr_wrap K I) S (pivot + 1) lst v ?nb1) = Some nb2"
      using l[of ?nb1] r[of ?nb1] by (cases "less_nth I v (S ! pivot)") auto
    show ?thesis
      using l[of nb2] r[of nb2] near
      by (subst knn_many[OF 3 fp pv]) (simp only: option.case, auto)
  qed
qed

subsection \<open>\<open>copy\<close> pops in non-increasing order of the keys\<close>

lemma copy_loop_sorted:
  assumes "\<forall>e \<in> set qs. snd e < length S \<and> fst e = l2dist K (S ! snd e) v"
  shows "\<exists>out. copy_loop S qs = Some out \<and> length out = length qs \<and>
           sorted_wrt (\<lambda>a b. l2dist K b v \<le> l2dist K a v) out \<and>
           (\<forall>x \<in> set out. l2dist K x v \<in> fst ` set qs)"
  using assms
proof (induction "length qs" arbitrary: qs rule: less_induct)
  case less
  show ?case
  proof (cases "qs = []")
    case True
    then show ?thesis by (subst copy_loop.simps) simp
  next
    case False
    let ?t = "pq_top qs"
    have tin: "?t \<in> set qs" using False by (rule pq_top_in)
    with less.prems have tv: "snd ?t < length S" and tk: "fst ?t = l2dist K (S ! snd ?t) v"
      by simp_all
    have "\<forall>e \<in> set (pq_pop qs). snd e < length S \<and> fst e = l2dist K (S ! snd e) v"
      using less.prems set_pq_pop[of qs] by blast
    from less.hyps[OF length_pq_pop[OF False] this] obtain out where
      out: "copy_loop S (pq_pop qs) = Some out" "length out = length (pq_pop qs)"
        "sorted_wrt (\<lambda>a b. l2dist K b v \<le> l2dist K a v) out"
        "\<forall>x \<in> set out. l2dist K x v \<in> fst ` set (pq_pop qs)"
      by blast
    have c: "copy_loop S qs = Some (S ! snd ?t # out)"
      using False tv out(1) by (subst copy_loop.simps) (simp add: deref_def)
    have le: "l2dist K x v \<le> l2dist K (S ! snd ?t) v" if "x \<in> set out" for x
    proof -
      from that out(4) have "l2dist K x v \<in> fst ` set (pq_pop qs)"
        by blast
      then obtain e where "e \<in> set (pq_pop qs)" and e: "l2dist K x v = fst e"
        by (rule imageE)
      with set_pq_pop[of qs] have "e \<in> set qs" by blast
      from pq_top_max[OF False this] tk e show ?thesis by simp
    qed
    have "length (S ! snd ?t # out) = length qs"
      using out(2) length_pq_pop_eq[OF False] False by (cases qs) simp_all
    moreover have "sorted_wrt (\<lambda>a b. l2dist K b v \<le> l2dist K a v) (S ! snd ?t # out)"
      using out(3) le by simp
    moreover have "\<forall>x \<in> set (S ! snd ?t # out). l2dist K x v \<in> fst ` set qs"
    proof -
      have "l2dist K (S ! snd ?t) v \<in> fst ` set qs"
        using tin tk by (metis imageI)
      moreover have "fst ` set (pq_pop qs) \<subseteq> fst ` set qs"
        using set_pq_pop[of qs] by (rule image_mono)
      ultimately show ?thesis using out(4) by auto
    qed
    ultimately show ?thesis using c by blast
  qed
qed

lemma abs_less_sqrt_iff: "\<bar>x\<bar> < sqrt s \<longleftrightarrow> x\<^sup>2 < s"
  by (metis real_sqrt_abs real_sqrt_less_iff)

lemma less_sqrt_iff: "0 \<le> x \<Longrightarrow> x < sqrt s \<longleftrightarrow> x\<^sup>2 < s"
  using abs_less_sqrt_iff[of x s] by simp

lemma le_sqrt_iff: "0 \<le> x \<Longrightarrow> x \<le> sqrt s \<longleftrightarrow> x\<^sup>2 \<le> s"
  using abs_le_sqrt_iff[of x s] by simp

lemma sqrt_less_iff: "0 \<le> x \<Longrightarrow> sqrt s < x \<longleftrightarrow> s < x\<^sup>2"
  by (metis abs_of_nonneg real_sqrt_abs real_sqrt_less_iff)

lemma sqrt_le_iff: "0 \<le> x \<Longrightarrow> sqrt s \<le> x \<longleftrightarrow> s \<le> x\<^sup>2"
  by (metis abs_of_nonneg real_sqrt_abs real_sqrt_le_iff)

lemmas sqrt_eval = abs_less_sqrt_iff abs_le_sqrt_iff less_sqrt_iff le_sqrt_iff sqrt_less_iff sqrt_le_iff

lemmas queue_eval = n_best_init_def max_key_def add_def pq_pop_def copy_def copy_loop.simps
  kd_nearest_neighbors_def

lemma add_keeps_when_not_full:
  assumes "length (q (add d it nb)) < m_n nb"
  shows "(d, it) \<in> set (q (add d it nb))"
proof (cases "length (q nb) + 1 > m_n nb")
  case True
  then have "q (add d it nb) = pq_pop (q nb @ [(d, it)])"
    by (simp add: add_def Let_def)
  then have "length (q (add d it nb)) = length (q nb)"
    using length_pq_pop_eq[of "q nb @ [(d, it)]"] by simp
  with True assms show ?thesis by simp
next
  case False
  then show ?thesis by (simp add: add_def Let_def)
qed

text \<open>
  In the model the test for the opposite side is passed whenever the queue is not full:
  the key of the pivot is still in the queue and is at least the gap on the axis. The
  second part is \<open>axis_le_l2dist\<close>, a fact of exact arithmetic; it is not claimed for
  \<open>double\<close>, where \<open>pow(x, 2)\<close> underflows to 0 for a small gap \<open>x\<close>.
\<close>

lemma knn_test_passes_when_not_full:
  assumes "I < K" and "knn K J S a b v (add (l2dist K pv v) pivot nb) = Some nb2"
    and "length (q nb2) < m_n nb2"
  shows "\<bar>get I v - get I pv\<bar> \<le> max_key nb2"
proof -
  let ?nb1 = "add (l2dist K pv v) pivot nb"
  from assms(2) have ext: "queue_extends K S v ?nb1 nb2"
    by (rule knn_queue_extends)
  have m1: "m_n ?nb1 = m_n nb"
    by (simp add: add_def Let_def)
  from ext assms(3) m1 have small: "length (q nb2) < m_n nb" and sub: "set (q ?nb1) \<subseteq> set (q nb2)"
    and mono: "length (q ?nb1) \<le> length (q nb2)"
    by (simp_all add: queue_extends_def)
  from small mono have "length (q ?nb1) < m_n nb" by simp
  from add_keeps_when_not_full[OF this] sub
  have mem: "(l2dist K pv v, pivot) \<in> set (q nb2)" by blast
  then have ne: "q nb2 \<noteq> []" by auto
  from pq_top_max[OF ne mem] ne have "l2dist K pv v \<le> max_key nb2"
    by (simp add: max_key_def)
  with axis_le_l2dist[of I K v pv] assms(1) show ?thesis
    by simp
qed

text \<open>
  C1 fails on the code. \<open>max_key\<close> tests \<open>q.empty()\<close>, not \<open>q.size() < m_n\<close>, and its
  sentinel is \<open>numeric_limits<double>::max()\<close>, the largest finite key, not an infinity:
  on a queue of capacity 2 that holds one entry it returns the key of that entry. The
  same happens inside \<open>knn\<close>: with arity 1, the sequence \<open>(0), (1), (2)\<close>, \<open>v = (0)\<close> and
  \<open>n = 3\<close>, the test for the opposite side at the top level finds 2 of the 3 places
  taken and \<open>max_key\<close> equal to the gap \<open>|v[0] - pivot[0]| = 1\<close>. The test is passed with
  nothing to spare, by the key that the pivot itself has put into the queue, and not by
  a sentinel.
\<close>

theorem max_key_below_capacity:
  "length (q (add 1 0 (n_best_init 2))) < m_n (add 1 0 (n_best_init 2)) \<and>
   max_key (add 1 0 (n_best_init 2)) = 1 \<and>
   max_key (add 1 0 (n_best_init 2)) < numeric_limits_max \<and>
   find_pivot 0 [[0], [1], [2::real]] 0 3 = Some 1 \<and>
   less_nth 0 [0] [1::real] \<and>
   knn 1 (incr_wrap 1 0) [[0], [1], [2]] 0 1 [0] (add (l2dist 1 [1] [0]) 1 (n_best_init 3)) =
     Some \<lparr>m_n = 3, q = [(1, 1), (0, 0)]\<rparr> \<and>
   max_key \<lparr>m_n = 3, q = [(1, 1), (0, 0)]\<rparr> = \<bar>get 0 [0] - get 0 [1]\<bar>"
  by (simp add: knn.simps queue_eval prim_eval l2dist_def numeric_limits_max_def)

text \<open>
  C10: on every storage and range inside it, for every query value and capacity,
  \<open>kd_nearest_neighbors\<close> returns, emits at most \<open>n\<close> elements, and emits them in
  non-increasing order of their distance to \<open>v\<close>.
\<close>

theorem kd_nearest_neighbors_at_most_n_farthest_first:
  assumes "lst \<le> length S"
  shows "\<exists>out. kd_nearest_neighbors K S first lst v n = Some out \<and> length out \<le> n \<and>
           sorted_wrt (\<lambda>a b. l2dist K b v \<le> l2dist K a v) out"
proof -
  from knn_total[OF assms] obtain nb where
    k: "knn K 0 S first lst v (n_best_init n) = Some nb"
    by blast
  from knn_queue_extends[OF k] have
    len: "length (q nb) \<le> n" and
    ok: "\<forall>e \<in> set (q nb). snd e < length S \<and> fst e = l2dist K (S ! snd e) v"
    by (simp_all add: queue_extends_def n_best_init_def)
  from copy_loop_sorted[OF ok] obtain out where
    "copy_loop S (q nb) = Some out" "length out = length (q nb)"
    "sorted_wrt (\<lambda>a b. l2dist K b v \<le> l2dist K a v) out"
    by blast
  with k len show ?thesis
    by (simp add: kd_nearest_neighbors_def copy_def)
qed

theorem kd_nearest_neighbors_at_most_n_farthest_first_witness:
  "(3::nat) \<le> length [[0, 0], [0, 1], [1, 0::real]] \<and>
   (\<exists>out. kd_nearest_neighbors 2 [[0, 0], [0, 1], [1, 0]] 0 3 [1, -1] 2 = Some out \<and>
      length out \<le> 2 \<and> sorted_wrt (\<lambda>a b. l2dist 2 b [1, -1] \<le> l2dist 2 a [1, -1]) out)"
proof -
  have h: "(3::nat) \<le> length [[0, 0], [0, 1], [1, 0::real]]" by simp
  from kd_nearest_neighbors_at_most_n_farthest_first[OF h, of 2 0 "[1, -1]" 2] h
  show ?thesis by blast
qed

section \<open>Inputs on which the queries go wrong\<close>

text \<open>
  The sequences used below are results of \<open>kd_sort\<close>: sorting them again leaves them as
  they are.
\<close>

lemma kd_sort_two:
  assumes "kd_less K 0 0 a b"
  shows "kd_sort K 0 [a, b] [a, b]"
proof -
  have "kd_sort K 0 [a, b] ([a] @ [([a] @ drop 1 [a, b]) ! 1] @ [])"
  proof (rule kd_sort_recurse[where pivot = 1 and ys = "[a, b]" and zs = "[a]" and p = 1])
    show "1 < length [a, b]" by simp
    show "1 = midpos 0 (length [a, b])" by (simp add: midpos_def)
    show "nth_element_post (kd_less K 0 0) [a, b] 1 [a, b]"
      using assms kd_less_trans[OF assms, of a] kd_less_irrefl[of K 0 0]
      by (auto simp: nth_element_post_def)
    show "partition_post (\<lambda>x. kd_less K 0 0 x ([a, b] ! 1)) (take 1 [a, b]) [a] 1"
      using assms by (simp add: partition_post_def)
    show "kd_sort K (incr_wrap K 0) (drop (1 + 1) ([a] @ drop 1 [a, b])) []"
      using kd_sort_return[of "[]" K "incr_wrap K 0"] by simp
    show "kd_sort K (incr_wrap K 0) (take 1 ([a] @ drop 1 [a, b])) [a]"
      using kd_sort_return[of "[a]" K "incr_wrap K 0"] by simp
  qed
  then show ?thesis by simp
qed

lemma kd_sort_three:
  assumes "kd_less K 0 0 a b" and "kd_less K 0 0 b c"
  shows "kd_sort K 0 [a, b, c] [a, b, c]"
proof -
  have ac: "kd_less K 0 0 a c"
    using assms by (rule kd_less_trans)
  have n: "\<not> kd_less K 0 0 b a" "\<not> kd_less K 0 0 c a" "\<not> kd_less K 0 0 c b"
    using kd_less_trans[OF assms(1), of a] kd_less_trans[OF ac, of a]
      kd_less_trans[OF assms(2), of b] kd_less_irrefl[of K 0 0]
    by blast+
  have "kd_sort K 0 [a, b, c] ([a] @ [([a] @ drop 1 [a, b, c]) ! 1] @ [c])"
  proof (rule kd_sort_recurse[where pivot = 1 and ys = "[a, b, c]" and zs = "[a]" and p = 1])
    show "1 < length [a, b, c]" by simp
    show "1 = midpos 0 (length [a, b, c])" by (simp add: midpos_def)
    show "nth_element_post (kd_less K 0 0) [a, b, c] 1 [a, b, c]"
      using n kd_less_irrefl[of K 0 0] by (auto simp: nth_element_post_def)
    show "partition_post (\<lambda>x. kd_less K 0 0 x ([a, b, c] ! 1)) (take 1 [a, b, c]) [a] 1"
      using assms by (simp add: partition_post_def)
    show "kd_sort K (incr_wrap K 0) (drop (1 + 1) ([a] @ drop 1 [a, b, c])) [c]"
      using kd_sort_return[of "[c]" K "incr_wrap K 0"] by simp
    show "kd_sort K (incr_wrap K 0) (take 1 ([a] @ drop 1 [a, b, c])) [a]"
      using kd_sort_return[of "[a]" K "incr_wrap K 0"] by simp
  qed
  then show ?thesis by simp
qed

lemma failing_inputs_are_sorted:
  "kd_sort 2 0 [[0, 5], [1, 0::int]] [[0, 5], [1, 0]]"
  "kd_sort 2 0 [[1, 3], [2, 1::int]] [[1, 3], [2, 1]]"
  "kd_sort 2 0 [[0, 1], [0, 2], [1, 0::real]] [[0, 1], [0, 2], [1, 0]]"
  "kd_sort 2 0 [[0, 0], [0, 1], [1, 0::real]] [[0, 0], [0, 1], [1, 0]]"
  by (rule kd_sort_two kd_sort_three; simp add: prim_eval)+

text \<open>
  C3 fails on the code. On an empty range \<open>kd_lower_bound\<close> and \<open>kd_upper_bound\<close> reach
  their base case, which evaluates \<open>none_less(*first, value)\<close> and \<open>all_less(value,
  *first)\<close>: with \<open>first = last\<close> that reads an element outside the range, and past the
  end of the storage when the range is the whole (empty) storage. The other three
  queries read nothing there (\<open>empty_range_other_queries\<close>).
\<close>

theorem kd_bounds_empty_range_read:
  "kd_lower_bound 2 0 [] 0 0 [1, 1::int] = None \<and> kd_upper_bound 2 0 [] 0 0 [1, 1::int] = None"
  by (simp add: kd_lower_bound.simps kd_upper_bound.simps prim_eval)

lemma empty_range_other_queries:
  "kd_nearest_neighbor K I S n n v = Some n \<and>
   kd_range_query K I S n n lower upper = Some [] \<and>
   kd_nearest_neighbors K S n n v k = Some []"
  by (simp add: kd_nearest_neighbor.simps kd_range_query.simps knn.simps queue_eval)

lemma kd_bounds_empty_range_general:
  "kd_lower_bound K I S n n v = (if n < length S then Some n else None) \<and>
   kd_upper_bound K I S n n v = (if n < length S then Some n else None)"
  by (simp add: kd_lower_bound.simps kd_upper_bound.simps deref_def)

text \<open>
  The same read happens on ranges that are not empty, whenever a search ends at \<open>last\<close>:
  the base case on an empty sub-range and the callers' \<open>none_less(*it, value)\<close> read
  position \<open>last\<close>. When a vector is searched as a whole, that is past its end: here for
  \<open>v = (1,1)\<close> in \<open>(0,5), (1,0)\<close> and, through \<open>kd_binary_search\<close>, for \<open>(2,2)\<close> in
  \<open>(1,3), (2,1)\<close>. The position returned does not depend on what is read there
  (\<open>kd_lower_bound_sequence\<close>).
\<close>

lemma kd_lower_bound_reads_last:
  "kd_lower_bound 2 0 [[0, 5], [1, 0::int]] 0 2 [1, 1] = None \<and>
   kd_binary_search 2 [[1, 3], [2, 1::int]] 0 2 [2, 2] = None"
  by (simp add: kd_binary_search_def kd_lower_bound.simps prim_eval)

text \<open>
  C4 fails on the code. \<open>(0,1), (0,2), (1,0)\<close> is k-d-sorted, and its element nearest to
  \<open>v = (0,-1)\<close> is \<open>(1,0)\<close>, at distance \<open>\<surd>2\<close>. \<open>find_pivot\<close> compares on axis 0 only, so
  it takes position 0 for the pivot (its neighbour \<open>(0,2)\<close> ties with it on axis 0) and
  hands \<open>[1, 3)\<close> to the next level as if it were sorted from axis 1; there the pruning
  test cuts \<open>(1,0)\<close> off. The call returns position 0, at distance 2. On results of
  \<open>kd_sort\<close> in which no two elements agree on an axis the claim holds
  (\<open>kd_nearest_neighbor_after_kd_sort\<close>).
\<close>

theorem kd_nearest_neighbor_axis_tie:
  "spec_kd_order 2 0 [[0, 1], [0, 2], [1, 0::real]] \<and>
   kd_nearest_neighbor 2 0 [[0, 1], [0, 2], [1, 0]] 0 3 [0, -1] = Some 0 \<and>
   l2dist 2 [1, 0] [0, -1] < l2dist 2 [0, 1] [0, -1]"
  by (simp add: spec_kd_order.simps kd_nearest_neighbor.simps prim_eval l2dist_def
      sqrt_eval)

text \<open>
  C2 fails on the code, for the same reason as C4. \<open>(0,0), (0,1), (1,0)\<close> is k-d-sorted;
  with \<open>v = (1,-1)\<close> and \<open>n = 1\<close> the nearest element is \<open>(1,0)\<close>, at distance 1, and the
  call emits \<open>(0,0)\<close>, at distance \<open>\<surd>2\<close>. On results of \<open>kd_sort\<close> in which no two
  elements agree on an axis the claim holds (\<open>kd_nearest_neighbors_after_kd_sort\<close>).
\<close>

theorem kd_nearest_neighbors_axis_tie:
  "spec_kd_order 2 0 [[0, 0], [0, 1], [1, 0::real]] \<and>
   kd_nearest_neighbors 2 [[0, 0], [0, 1], [1, 0]] 0 3 [1, -1] 1 = Some [[0, 0]] \<and>
   l2dist 2 [1, 0] [1, -1] < l2dist 2 [0, 0] [1, -1]"
  by (simp add: spec_kd_order.simps knn.simps queue_eval prim_eval l2dist_def
      sqrt_eval)

section \<open>When the queries are right\<close>

subsection \<open>Nearest neighbour\<close>

text \<open>
  The layout that the descent relies on: the position that \<open>find_pivot\<close> returns
  separates the range on axis \<open>I\<close>, and so on for the two sides from the next axis.
\<close>

function pivot_layout :: "nat \<Rightarrow> nat \<Rightarrow> 'a::linorder tuple list \<Rightarrow> nat \<Rightarrow> nat \<Rightarrow> bool" where
  "pivot_layout K I S first lst =
     (if lst - first > 1 then
        (case find_pivot I S first lst of
           None \<Rightarrow> False
         | Some p \<Rightarrow>
             (\<forall>j \<in> {first ..< p}. get I (S ! j) \<le> get I (S ! p)) \<and>
             (\<forall>j \<in> {p + 1 ..< lst}. get I (S ! p) \<le> get I (S ! j)) \<and>
             pivot_layout K (incr_wrap K I) S first p \<and>
             pivot_layout K (incr_wrap K I) S (p + 1) lst)
      else True)"
  by pat_completeness auto
termination
  by (relation "measure (\<lambda>(K, I, S, first, lst). lst - first)")
     (auto dest: find_pivot_bounds)

declare pivot_layout.simps [simp del]

lemma pivot_layout_step:
  assumes "pivot_layout K I S first lst" and "lst - first > 1"
  obtains p where "find_pivot I S first lst = Some p" and "first \<le> p" and "p < lst"
    and "\<forall>j \<in> {first ..< p}. get I (S ! j) \<le> get I (S ! p)"
    and "\<forall>j \<in> {p + 1 ..< lst}. get I (S ! p) \<le> get I (S ! j)"
    and "pivot_layout K (incr_wrap K I) S first p"
    and "pivot_layout K (incr_wrap K I) S (p + 1) lst"
proof -
  from assms obtain p where fp: "find_pivot I S first lst = Some p"
    by (subst (asm) pivot_layout.simps) (auto split: option.splits)
  with assms have
    "(\<forall>j \<in> {first ..< p}. get I (S ! j) \<le> get I (S ! p)) \<and>
     (\<forall>j \<in> {p + 1 ..< lst}. get I (S ! p) \<le> get I (S ! j)) \<and>
     pivot_layout K (incr_wrap K I) S first p \<and>
     pivot_layout K (incr_wrap K I) S (p + 1) lst"
    by (subst (asm) pivot_layout.simps) simp
  with that[OF fp] find_pivot_bounds[OF fp assms(2)] show thesis
    by blast
qed

lemma kd_nearest_neighbor_small:
  "\<not> lst - first > 1 \<Longrightarrow> kd_nearest_neighbor K I S first lst v = Some first"
  by (subst kd_nearest_neighbor.simps) simp

text \<open>The body of \<open>kd_nearest_neighbor\<close> once the reads and the two searches are known.\<close>

lemma kd_nearest_neighbor_step:
  assumes "lst - first > 1" and "find_pivot I S first lst = Some p" and "p < length S"
    and "(if less_nth I v (S ! p)
          then kd_nearest_neighbor K (incr_wrap K I) S first p v
          else kd_nearest_neighbor K (incr_wrap K I) S (p + 1) lst v) = Some s0"
    and "s0 \<noteq> lst \<longrightarrow> s0 < length S"
    and "search = (if s0 \<noteq> lst \<and> l2dist K (S ! s0) v < l2dist K (S ! p) v then s0 else p)"
    and "(if less_nth I v (S ! p)
          then kd_nearest_neighbor K (incr_wrap K I) S (p + 1) lst v
          else kd_nearest_neighbor K (incr_wrap K I) S first p v) = Some s2"
    and "s2 \<noteq> lst \<longrightarrow> s2 < length S"
  shows "kd_nearest_neighbor K I S first lst v =
     Some (if \<bar>get I v - get I (S ! p)\<bar> < l2dist K (S ! search) v \<and> s2 \<noteq> lst \<and>
              l2dist K (S ! s2) v < l2dist K (S ! search) v
           then s2 else search)"
proof -
  have dp: "deref S p = Some (S ! p)"
    using assms(3) by (simp add: deref_def)
  have d0: "s0 \<noteq> lst \<Longrightarrow> deref S s0 = Some (S ! s0)"
    using assms(5) by (simp add: deref_def)
  have d2: "s2 \<noteq> lst \<Longrightarrow> deref S s2 = Some (S ! s2)"
    using assms(8) by (simp add: deref_def)
  show ?thesis
  proof (cases "s0 = lst")
    case True
    with assms(1,2,4,6,7) dp d2 show ?thesis
      by (subst kd_nearest_neighbor.simps) (simp add: Let_def)
  next
    case False
    with assms(1,2,4,6,7) dp d0 d2 show ?thesis
      by (subst kd_nearest_neighbor.simps) (simp add: Let_def)
  qed
qed

lemma kd_nearest_neighbor_correct:
  assumes "lst \<le> length S" and "pivot_layout K I S first lst" and "I < K"
  shows "\<exists>r. kd_nearest_neighbor K I S first lst v = Some r \<and>
     (if first < lst
      then first \<le> r \<and> r < lst \<and> (\<forall>j \<in> {first ..< lst}. l2dist K (S ! r) v \<le> l2dist K (S ! j) v)
      else r = first)"
  using assms
proof (induction "lst - first" arbitrary: I first lst rule: less_induct)
  case less
  define d where "d j = l2dist K (S ! j) v" for j
  show ?case
  proof (cases "lst - first > 1")
    case False
    then have "kd_nearest_neighbor K I S first lst v = Some first"
      by (rule kd_nearest_neighbor_small)
    moreover have "{first ..< lst} = {first}" if "first < lst"
      using that False by auto
    ultimately show ?thesis by auto
  next
    case big: True
    obtain p where
      fp: "find_pivot I S first lst = Some p" and b: "first \<le> p" "p < lst"
      and L: "\<forall>j \<in> {first ..< p}. get I (S ! j) \<le> get I (S ! p)"
      and R: "\<forall>j \<in> {p + 1 ..< lst}. get I (S ! p) \<le> get I (S ! j)"
      and ll: "pivot_layout K (incr_wrap K I) S first p"
      and lr: "pivot_layout K (incr_wrap K I) S (p + 1) lst"
      by (rule pivot_layout_step[OF less.prems(2) big])
    have J: "incr_wrap K I < K"
      using less.prems(3) by (simp add: incr_wrap_def)
    have pS: "p < length S"
      using b less.prems(1) by simp
    have "p - first < lst - first" "p \<le> length S"
      using b less.prems(1) by simp_all
    from less.hyps[OF this ll J] obtain rl where
      nl: "kd_nearest_neighbor K (incr_wrap K I) S first p v = Some rl" and
      gl: "if first < p
           then first \<le> rl \<and> rl < p \<and> (\<forall>j \<in> {first ..< p}. d rl \<le> d j)
           else rl = first"
      unfolding d_def by blast
    have "lst - (p + 1) < lst - first"
      using b by simp
    from less.hyps[OF this less.prems(1) lr J] obtain rr where
      nr: "kd_nearest_neighbor K (incr_wrap K I) S (p + 1) lst v = Some rr" and
      gr: "if p + 1 < lst
           then p + 1 \<le> rr \<and> rr < lst \<and> (\<forall>j \<in> {p + 1 ..< lst}. d rr \<le> d j)
           else rr = p + 1"
      unfolding d_def by blast
    have Lf: "first \<le> rl" "rl \<le> p" "\<forall>j \<in> {first ..< p}. d rl \<le> d j"
      using gl b by (auto split: if_splits)
    have Rf: "p + 1 \<le> rr" "rr \<le> lst" "rr \<noteq> lst \<longrightarrow> (\<forall>j \<in> {p + 1 ..< lst}. d rr \<le> d j)"
      "rr = lst \<longrightarrow> {p + 1 ..< lst} = {}"
      using gr b by (auto split: if_splits)
    define sl where "sl = less_nth I v (S ! p)"
    define s0 where "s0 = (if sl then rl else rr)"
    define s2 where "s2 = (if sl then rr else rl)"
    define search where
      "search = (if s0 \<noteq> lst \<and> l2dist K (S ! s0) v < l2dist K (S ! p) v then s0 else p)"
    define r where
      "r = (if \<bar>get I v - get I (S ! p)\<bar> < l2dist K (S ! search) v \<and> s2 \<noteq> lst \<and>
              l2dist K (S ! s2) v < l2dist K (S ! search) v
            then s2 else search)"
    have near: "(if less_nth I v (S ! p)
          then kd_nearest_neighbor K (incr_wrap K I) S first p v
          else kd_nearest_neighbor K (incr_wrap K I) S (p + 1) lst v) = Some s0"
      using nl nr by (simp add: s0_def sl_def)
    have far: "(if less_nth I v (S ! p)
          then kd_nearest_neighbor K (incr_wrap K I) S (p + 1) lst v
          else kd_nearest_neighbor K (incr_wrap K I) S first p v) = Some s2"
      using nl nr by (simp add: s2_def sl_def)
    have v0: "s0 \<noteq> lst \<longrightarrow> s0 < length S" and v2: "s2 \<noteq> lst \<longrightarrow> s2 < length S"
      using Lf(2) Rf(2) b less.prems(1) by (auto simp: s0_def s2_def)
    have res: "kd_nearest_neighbor K I S first lst v = Some r"
      unfolding r_def by (rule kd_nearest_neighbor_step[OF big fp pS near v0 search_def far v2])
    have search_d: "d search \<le> d p"
      and search_rng: "first \<le> search" "search < lst"
      using Lf Rf b by (auto simp: search_def s0_def d_def)
    have r_d: "d r \<le> d search" and r_rng: "first \<le> r" "r < lst"
      using Lf Rf b search_rng by (auto simp: r_def s2_def d_def)
    have axis: "\<bar>get I v - get I (S ! j)\<bar> \<le> d j" for j
      unfolding d_def using less.prems(3) by (rule axis_le_l2dist)
    have left: "d r \<le> d j" if j: "j \<in> {first ..< p}" for j
    proof (cases sl)
      case True
      then have "d search \<le> d rl"
        using Lf b by (auto simp: search_def s0_def d_def)
      with Lf(3) j r_d show ?thesis by fastforce
    next
      case False
      show ?thesis
      proof (cases "\<bar>get I v - get I (S ! p)\<bar> < d search")
        case True
        have "rl \<noteq> lst" using Lf(2) b by simp
        with True False have "d r \<le> d rl"
          by (auto simp: r_def s2_def d_def)
        with Lf(3) j show ?thesis by fastforce
      next
        case nt: False
        from False have "get I (S ! p) \<le> get I v"
          by (simp add: sl_def less_nth_def)
        moreover from L j have "get I (S ! j) \<le> get I (S ! p)" by blast
        ultimately have "\<bar>get I v - get I (S ! p)\<bar> \<le> \<bar>get I v - get I (S ! j)\<bar>"
          by simp
        with nt axis[of j] r_d show ?thesis by linarith
      qed
    qed
    have right: "d r \<le> d j" if j: "j \<in> {p + 1 ..< lst}" for j
    proof -
      from j Rf(4) have ne: "rr \<noteq> lst" by blast
      with Rf(3) j have rj: "d rr \<le> d j" by blast
      show ?thesis
      proof (cases sl)
        case False
        with ne have "d search \<le> d rr"
          by (auto simp: search_def s0_def d_def)
        with rj r_d show ?thesis by linarith
      next
        case True
        show ?thesis
        proof (cases "\<bar>get I v - get I (S ! p)\<bar> < d search")
          case t: True
          with True ne have "d r \<le> d rr"
            by (auto simp: r_def s2_def d_def)
          with rj show ?thesis by linarith
        next
          case nt: False
          from True have "get I v < get I (S ! p)"
            by (simp add: sl_def less_nth_def)
          moreover from R j have "get I (S ! p) \<le> get I (S ! j)" by blast
          ultimately have "\<bar>get I v - get I (S ! p)\<bar> \<le> \<bar>get I v - get I (S ! j)\<bar>"
            by simp
          with nt axis[of j] r_d show ?thesis by linarith
        qed
      qed
    qed
    have "d r \<le> d j" if "j \<in> {first ..< lst}" for j
    proof -
      from that consider "j \<in> {first ..< p}" | "j = p" | "j \<in> {p + 1 ..< lst}"
        by fastforce
      then show ?thesis
        using left right r_d search_d by cases auto
    qed
    with res r_rng b show ?thesis
      unfolding d_def by auto
  qed
qed

text \<open>No two elements agree on any axis.\<close>

definition axis_distinct :: "nat \<Rightarrow> 'a tuple list \<Rightarrow> bool" where
  "axis_distinct K xs \<longleftrightarrow>
     distinct xs \<and> (\<forall>a \<in> set xs. \<forall>b \<in> set xs. a \<noteq> b \<longrightarrow> (\<forall>i < K. get i a \<noteq> get i b))"

text \<open>The content of the range \<open>[first, lst)\<close> of \<open>S\<close>.\<close>

definition seg :: "'a list \<Rightarrow> nat \<Rightarrow> nat \<Rightarrow> 'a list" where
  "seg S first lst = take (lst - first) (drop first S)"

lemma length_seg: "lst \<le> length S \<Longrightarrow> length (seg S first lst) = lst - first"
  by (simp add: seg_def)

lemma nth_seg: "lst \<le> length S \<Longrightarrow> i < lst - first \<Longrightarrow> seg S first lst ! i = S ! (first + i)"
  by (simp add: seg_def)

lemma take_seg: "n \<le> lst - first \<Longrightarrow> take n (seg S first lst) = seg S first (first + n)"
  by (simp add: seg_def min_def)

lemma drop_seg: "drop n (seg S first lst) = seg S (first + n) lst"
  by (simp add: seg_def drop_take add.commute)

lemma nth_in_seg:
  assumes "lst \<le> length S" and "first \<le> j" and "j < lst"
  shows "S ! j \<in> set (seg S first lst)"
proof -
  have "j - first < length (seg S first lst)"
    using assms by (simp add: length_seg)
  then have "seg S first lst ! (j - first) \<in> set (seg S first lst)"
    by (rule nth_mem)
  moreover have "seg S first lst ! (j - first) = S ! (first + (j - first))"
    using assms by (intro nth_seg) simp_all
  ultimately show ?thesis using assms(2) by simp
qed

lemma partition_point_loop_all_true:
  "first + len \<le> length S \<Longrightarrow> \<forall>j \<in> {first ..< first + len}. pred (S ! j) \<Longrightarrow>
   partition_point_loop S pred first len = Some (first + len)"
proof (induction S pred first len rule: partition_point_loop.induct)
  case (1 S pred first len)
  show ?case
  proof (cases "len > 0")
    case False
    then show ?thesis by (subst partition_point_loop.simps) simp
  next
    case True
    with "1.prems" have d: "deref S (first + len div 2) = Some (S ! (first + len div 2))"
      and p: "pred (S ! (first + len div 2))"
      by (simp_all add: deref_def)
    have a: "first + len div 2 + 1 + (len - len div 2 - 1) \<le> length S"
      and e: "first + len div 2 + 1 + (len - len div 2 - 1) = first + len"
      using "1.prems"(1) True by simp_all
    have "\<forall>j \<in> {first + len div 2 + 1 ..< first + len div 2 + 1 + (len - len div 2 - 1)}.
        pred (S ! j)"
      using "1.prems"(2) unfolding e by simp
    from "1.IH"(1)[OF True refl refl d p a this] True d p e show ?thesis
      by (subst partition_point_loop.simps) (simp add: Let_def)
  qed
qed

lemma spec_kd_order_pivot_layout:
  assumes "lst \<le> length S" and "spec_kd_order K I (seg S first lst)"
    and "axis_distinct K S" and "I < K"
  shows "pivot_layout K I S first lst"
  using assms
proof (induction "lst - first" arbitrary: I first lst rule: less_induct)
  case less
  show ?case
  proof (cases "lst - first > 1")
    case False
    then show ?thesis by (subst pivot_layout.simps) simp
  next
    case big: True
    define n where "n = (lst - first) div 2"
    define mid where "mid = midpos first lst"
    have mid: "mid = first + n" "first \<le> mid" "mid < lst" "n < lst - first"
      using big by (simp_all add: mid_def n_def midpos_def)
    let ?xs = "seg S first lst"
    have len: "length ?xs = lst - first"
      using less.prems(1) by (rule length_seg)
    have mp: "midpos 0 (length ?xs) = n"
      by (simp add: len midpos_def n_def)
    have xp: "?xs ! n = S ! mid"
      using nth_seg[OF less.prems(1) mid(4)] mid(1) by simp
    have tk: "take n ?xs = seg S first mid"
      using take_seg[of n lst first S] mid by simp
    have dr: "drop (n + 1) ?xs = seg S (mid + 1) lst"
      using drop_seg[of "n + 1" S first lst] mid by (simp add: add.assoc)
    have gt: "length ?xs > 1"
      using big len by simp
    from less.prems(2) have
      "(\<forall>x \<in> set (take n ?xs).
            get I x < get I (?xs ! n) \<or> (get I x = get I (?xs ! n) \<and> kd_less K I 0 x (?xs ! n))) \<and>
       (\<forall>y \<in> set (drop (n + 1) ?xs).
            get I (?xs ! n) \<le> get I y \<and> \<not> kd_less K I 0 y (?xs ! n)) \<and>
       spec_kd_order K (incr_wrap K I) (take n ?xs) \<and>
       spec_kd_order K (incr_wrap K I) (drop (n + 1) ?xs)"
      by (subst (asm) spec_kd_order.simps) (simp only: gt if_True Let_def mp, blast)
    then have
      A: "\<forall>x \<in> set (seg S first mid).
            get I x < get I (S ! mid) \<or> (get I x = get I (S ! mid) \<and> kd_less K I 0 x (S ! mid))"
      and B: "\<forall>y \<in> set (seg S (mid + 1) lst).
            get I (S ! mid) \<le> get I y \<and> \<not> kd_less K I 0 y (S ! mid)"
      and C: "spec_kd_order K (incr_wrap K I) (seg S first mid)"
      and D: "spec_kd_order K (incr_wrap K I) (seg S (mid + 1) lst)"
      unfolding xp tk dr by blast+
    have midS: "mid < length S" "mid \<le> length S"
      using mid less.prems(1) by simp_all
    have strict: "get I (S ! j) < get I (S ! mid)" if "j \<in> {first ..< mid}" for j
    proof -
      from that midS have jm: "j < length S" "j \<noteq> mid" by simp_all
      with less.prems(3) midS(1) have "S ! j \<noteq> S ! mid"
        by (simp add: axis_distinct_def nth_eq_iff_index_eq)
      with less.prems(3,4) jm midS(1) have "get I (S ! j) \<noteq> get I (S ! mid)"
        by (simp add: axis_distinct_def)
      moreover have "S ! j \<in> set (seg S first mid)"
        using that by (intro nth_in_seg midS(2)) simp_all
      ultimately show ?thesis using A by force
    qed
    have "partition_point_loop S (\<lambda>x. less_nth I x (S ! mid)) first (mid - first)
        = Some (first + (mid - first))"
      using strict mid(2) midS(2) by (intro partition_point_loop_all_true) (simp_all add: less_nth_def)
    then have fp: "find_pivot I S first lst = Some mid"
      using midS(1) mid(2)
      by (simp add: find_pivot_def Let_def deref_def partition_point_def mid_def[symmetric])
    have Lc: "\<forall>j \<in> {first ..< mid}. get I (S ! j) \<le> get I (S ! mid)"
      using strict by (simp add: less_imp_le)
    have Rc: "\<forall>j \<in> {mid + 1 ..< lst}. get I (S ! mid) \<le> get I (S ! j)"
    proof
      fix j assume "j \<in> {mid + 1 ..< lst}"
      then have "S ! j \<in> set (seg S (mid + 1) lst)"
        by (intro nth_in_seg less.prems(1)) simp_all
      with B show "get I (S ! mid) \<le> get I (S ! j)" by blast
    qed
    have J: "incr_wrap K I < K"
      using less.prems(4) by (simp add: incr_wrap_def)
    have l1: "pivot_layout K (incr_wrap K I) S first mid"
      using mid midS by (intro less.hyps C less.prems(3) J) simp_all
    have l2: "pivot_layout K (incr_wrap K I) S (mid + 1) lst"
      using mid less.prems(1) by (intro less.hyps D less.prems(3) J) simp_all
    show ?thesis
      using big fp Lc Rc l1 l2 by (subst pivot_layout.simps) simp
  qed
qed

lemma axis_distinct_mset:
  assumes "mset ys = mset xs" and "axis_distinct K xs"
  shows "axis_distinct K ys"
  using assms mset_eq_setD[OF assms(1)] mset_eq_imp_distinct_iff[OF assms(1)]
  by (simp add: axis_distinct_def)

text \<open>
  When no two elements agree on any axis, \<open>kd_nearest_neighbor\<close> on a result of
  \<open>kd_sort\<close> returns a position of minimal distance.
\<close>

lemma kd_nearest_neighbor_after_kd_sort:
  assumes "kd_sort K 0 xs S" and "axis_distinct K xs" and "\<forall>x \<in> set xs. length x = K"
    and "0 < K" and "xs \<noteq> []"
  shows "\<exists>r < length S. kd_nearest_neighbor K 0 S 0 (length S) v = Some r \<and>
           (\<forall>j < length S. l2dist K (S ! r) v \<le> l2dist K (S ! j) v)"
proof -
  from assms(2) have "distinct xs" by (simp add: axis_distinct_def)
  from kd_sort_spec_kd_order[OF assms(1) this assms(3,4)] have "spec_kd_order K 0 S" .
  then have s: "spec_kd_order K 0 (seg S 0 (length S))"
    by (simp add: seg_def)
  have ad: "axis_distinct K S"
    using axis_distinct_mset[OF kd_sort_mset[OF assms(1)] assms(2)] .
  have "pivot_layout K 0 S 0 (length S)"
    by (rule spec_kd_order_pivot_layout[OF order_refl s ad assms(4)])
  from kd_nearest_neighbor_correct[OF order_refl this assms(4), of v]
    kd_sort_length[OF assms(1)] assms(5)
  show ?thesis by auto
qed

subsection \<open>Lower bound and binary search\<close>


























subsection \<open>k nearest neighbours\<close>

text \<open>
  The state of the queue after the positions \<open>V\<close> have been offered to it: it holds
  \<open>min(n, |V|)\<close> of them, each once and with its distance as key, and no position of
  \<open>V\<close> that it does not hold is nearer to \<open>v\<close> than one that it holds.
\<close>

definition knn_inv :: "nat \<Rightarrow> real tuple list \<Rightarrow> real tuple \<Rightarrow> nat set \<Rightarrow> n_best \<Rightarrow> bool" where
  "knn_inv K S v V nb \<longleftrightarrow>
     finite V \<and>
     distinct (map snd (q nb)) \<and>
     snd ` set (q nb) \<subseteq> V \<and>
     (\<forall>e \<in> set (q nb). fst e = l2dist K (S ! snd e) v) \<and>
     length (q nb) = min (m_n nb) (card V) \<and>
     (\<forall>i \<in> snd ` set (q nb). \<forall>j \<in> V - snd ` set (q nb).
        l2dist K (S ! i) v \<le> l2dist K (S ! j) v)"

lemma distinct_map_remove1:
  "distinct (map f xs) \<Longrightarrow> distinct (map f (remove1 x xs))"
proof (induction xs)
  case Nil
  show ?case by simp
next
  case (Cons y ys)
  have "set (remove1 x ys) \<subseteq> set ys" by (rule set_remove1_subset)
  with Cons show ?case by auto
qed

lemma image_remove1_distinct:
  assumes "distinct (map f xs)" and "x \<in> set xs"
  shows "f ` set (remove1 x xs) = f ` set xs - {f x}"
proof -
  from assms(1) have dx: "distinct xs" and inj: "inj_on f (set xs)"
    by (simp_all add: distinct_map)
  from dx have "set (remove1 x xs) = set xs - {x}" by simp
  moreover have "f ` (set xs - {x}) = f ` set xs - f ` {x}"
    using inj assms(2) by (intro inj_on_image_set_diff[of f "set xs"]) auto
  ultimately show ?thesis by simp
qed

lemma knn_inv_add_room:
  assumes "knn_inv K S v V nb" and "p \<notin> V" and "\<not> length (q nb) + 1 > m_n nb"
  shows "knn_inv K S v (insert p V) (add (l2dist K (S ! p) v) p nb)"
proof -
  let ?d = "\<lambda>j. l2dist K (S ! j) v"
  let ?P = "snd ` set (q nb)"
  from assms(1) have fin: "finite V" and dis: "distinct (map snd (q nb))" and sub: "?P \<subseteq> V"
    and keys: "\<forall>e \<in> set (q nb). fst e = ?d (snd e)"
    and len: "length (q nb) = min (m_n nb) (card V)"
    by (simp_all add: knn_inv_def)
  have q': "q (add (?d p) p nb) = q nb @ [(?d p, p)]" and m': "m_n (add (?d p) p nb) = m_n nb"
    using assms(3) by (simp_all add: add_def Let_def)
  from len assms(3) have lV: "length (q nb) = card V" and room: "card V < m_n nb"
    by (simp_all add: min_def split: if_splits)
  have "card ?P = length (q nb)"
    using dis by (metis distinct_card length_map set_map)
  with lV have "card ?P = card V" by simp
  then have PV: "?P = V" by (rule card_subset_eq[OF fin sub])
  have pn: "p \<notin> ?P" using sub assms(2) by blast
  have cI: "card (insert p V) = card V + 1"
    using fin assms(2) by simp
  show ?thesis
    unfolding knn_inv_def q' m'
  proof (intro conjI)
    show "finite (insert p V)" using fin by simp
    show "distinct (map snd (q nb @ [(?d p, p)]))" using dis pn by simp
    show "snd ` set (q nb @ [(?d p, p)]) \<subseteq> insert p V" using sub by auto
    show "\<forall>e \<in> set (q nb @ [(?d p, p)]). fst e = ?d (snd e)" using keys by simp
    show "length (q nb @ [(?d p, p)]) = min (m_n nb) (card (insert p V))"
      using lV room cI by simp
    show "\<forall>i \<in> snd ` set (q nb @ [(?d p, p)]).
        \<forall>j \<in> insert p V - snd ` set (q nb @ [(?d p, p)]). ?d i \<le> ?d j"
      using PV by simp
  qed
qed

lemma knn_inv_add_full:
  assumes "knn_inv K S v V nb" and "p \<notin> V" and "length (q nb) + 1 > m_n nb"
  shows "knn_inv K S v (insert p V) (add (l2dist K (S ! p) v) p nb)"
proof -
  let ?d = "\<lambda>j. l2dist K (S ! j) v"
  let ?P = "snd ` set (q nb)"
  let ?q1 = "q nb @ [(?d p, p)]"
  let ?t = "pq_top ?q1"
  from assms(1) have fin: "finite V" and dis: "distinct (map snd (q nb))" and sub: "?P \<subseteq> V"
    and keys: "\<forall>e \<in> set (q nb). fst e = ?d (snd e)"
    and len: "length (q nb) = min (m_n nb) (card V)"
    and best: "\<forall>i \<in> ?P. \<forall>j \<in> V - ?P. ?d i \<le> ?d j"
    by (simp_all add: knn_inv_def)
  have q': "q (add (?d p) p nb) = remove1 ?t ?q1" and m': "m_n (add (?d p) p nb) = m_n nb"
    using assms(3) by (simp_all add: add_def Let_def pq_pop_def)
  from len assms(3) have ln: "length (q nb) = m_n nb" and full: "m_n nb \<le> card V"
    by (simp_all add: min_def split: if_splits)
  have pn: "p \<notin> ?P" using sub assms(2) by blast
  have d1: "distinct (map snd ?q1)" using dis pn by simp
  have k1: "\<forall>e \<in> set ?q1. fst e = ?d (snd e)" using keys by simp
  have tin: "?t \<in> set ?q1" by (rule pq_top_in) simp
  have tmax: "fst e \<le> fst ?t" if "e \<in> set ?q1" for e
    using that by (intro pq_top_max) simp_all
  have P1: "snd ` set ?q1 = insert p ?P" by simp
  have P': "snd ` set (remove1 ?t ?q1) = insert p ?P - {snd ?t}"
    using image_remove1_distinct[OF d1 tin] P1 by simp
  have tP: "snd ?t \<in> insert p ?P"
    using tin P1 by (metis imageI)
  have dmax: "?d i \<le> ?d (snd ?t)" if "i \<in> insert p ?P" for i
  proof -
    from that P1 obtain e where e: "e \<in> set ?q1" "snd e = i" by (metis imageE)
    from k1 e(1) have "fst e = ?d (snd e)" by blast
    moreover from k1 tin have "fst ?t = ?d (snd ?t)" by blast
    ultimately show ?thesis using tmax[OF e(1)] e(2) by simp
  qed
  have cI: "card (insert p V) = card V + 1"
    using fin assms(2) by simp
  show ?thesis
    unfolding knn_inv_def q' m'
  proof (intro conjI)
    show "finite (insert p V)" using fin by simp
    show "distinct (map snd (remove1 ?t ?q1))"
      using d1 by (rule distinct_map_remove1)
    show "snd ` set (remove1 ?t ?q1) \<subseteq> insert p V"
      unfolding P' using sub by blast
    show "\<forall>e \<in> set (remove1 ?t ?q1). fst e = ?d (snd e)"
      using k1 set_remove1_subset[of ?t ?q1] by blast
    show "length (remove1 ?t ?q1) = min (m_n nb) (card (insert p V))"
      using tin ln full cI by (simp add: length_remove1)
    show "\<forall>i \<in> snd ` set (remove1 ?t ?q1).
        \<forall>j \<in> insert p V - snd ` set (remove1 ?t ?q1). ?d i \<le> ?d j"
      unfolding P'
    proof (intro ballI)
      fix i j assume i: "i \<in> insert p ?P - {snd ?t}"
        and j: "j \<in> insert p V - (insert p ?P - {snd ?t})"
      from j consider "j = snd ?t" | "j \<in> V - ?P" "j \<noteq> p"
        using assms(2) by blast
      then show "?d i \<le> ?d j"
      proof cases
        case 1
        with dmax[of i] i show ?thesis by simp
      next
        case 2
        show ?thesis
        proof (cases "i = p")
          case False
          with i have "i \<in> ?P" by simp
          with best 2(1) show ?thesis by blast
        next
          case True
          with i have "snd ?t \<noteq> p" by simp
          with tP have "snd ?t \<in> ?P" by simp
          with best 2(1) have "?d (snd ?t) \<le> ?d j" by blast
          with dmax[of p] True show ?thesis by simp
        qed
      qed
    qed
  qed
qed

lemma knn_inv_add:
  "knn_inv K S v V nb \<Longrightarrow> p \<notin> V \<Longrightarrow>
   knn_inv K S v (insert p V) (add (l2dist K (S ! p) v) p nb)"
  by (cases "length (q nb) + 1 > m_n nb") (simp_all add: knn_inv_add_full knn_inv_add_room)

lemma knn_inv_skip:
  assumes "knn_inv K S v V nb" and "finite F" and "length (q nb) = m_n nb"
    and "\<forall>j \<in> F. \<forall>i \<in> snd ` set (q nb). l2dist K (S ! i) v \<le> l2dist K (S ! j) v"
  shows "knn_inv K S v (V \<union> F) nb"
proof -
  from assms(1) have fin: "finite V" and len: "length (q nb) = min (m_n nb) (card V)"
    by (simp_all add: knn_inv_def)
  from len assms(3) have "m_n nb \<le> card V"
    by (simp add: min_def split: if_splits)
  moreover have "card V \<le> card (V \<union> F)"
    using fin assms(2) by (intro card_mono) simp_all
  ultimately have "length (q nb) = min (m_n nb) (card (V \<union> F))"
    using assms(3) by simp
  with assms(1,2,4) show ?thesis
    unfolding knn_inv_def by (intro conjI) (simp_all, blast+)
qed

lemma knn_correct_step:
  assumes "lst \<le> length S" and "pivot_layout K I S first lst" and "I < K"
    and "knn_inv K S v V nb" and "V \<inter> {first ..< lst} = {}"
  shows "\<exists>nb'. knn K I S first lst v nb = Some nb' \<and> m_n nb' = m_n nb \<and>
           knn_inv K S v (V \<union> {first ..< lst}) nb'"
  using assms
proof (induction "lst - first" arbitrary: I first lst nb V rule: less_induct)
  case less
  let ?d = "\<lambda>j. l2dist K (S ! j) v"
  have madd: "m_n (add x it nb0) = m_n nb0" for x it nb0
    by (simp add: add_def Let_def)
  consider "lst - first = 0" | "lst - first = 1" | "lst - first > 1"
    by linarith
  then show ?case
  proof cases
    case 1
    then have "{first ..< lst} = {}" by simp
    with 1 less.prems(4) show ?thesis
      by (simp add: knn_zero)
  next
    case 2
    then have e: "{first ..< lst} = {first}" and fS: "first < length S"
      using less.prems(1) by auto
    from fS have "deref S first = Some (S ! first)" by (simp add: deref_def)
    with 2 have k: "knn K I S first lst v nb = Some (add (?d first) first nb)"
      by (simp add: knn_one)
    from less.prems(5) e have "first \<notin> V" by simp
    from knn_inv_add[OF less.prems(4) this] k madd e show ?thesis
      by simp
  next
    case 3
    obtain p where
      fp: "find_pivot I S first lst = Some p" and b: "first \<le> p" "p < lst"
      and L: "\<forall>j \<in> {first ..< p}. get I (S ! j) \<le> get I (S ! p)"
      and R: "\<forall>j \<in> {p + 1 ..< lst}. get I (S ! p) \<le> get I (S ! j)"
      and ll: "pivot_layout K (incr_wrap K I) S first p"
      and lr: "pivot_layout K (incr_wrap K I) S (p + 1) lst"
      by (rule pivot_layout_step[OF less.prems(2) 3])
    have J: "incr_wrap K I < K"
      using less.prems(3) by (simp add: incr_wrap_def)
    have pS: "p < length S" "p \<le> length S"
      using b less.prems(1) by simp_all
    have pv: "deref S p = Some (S ! p)"
      using pS by (simp add: deref_def)
    let ?nb1 = "add (?d p) p nb"
    define sl where "sl = less_nth I v (S ! p)"
    define near where "near = (if sl then {first ..< p} else {p + 1 ..< lst})"
    define far where "far = (if sl then {p + 1 ..< lst} else {first ..< p})"
    have split: "{first ..< lst} = insert p (near \<union> far)"
      using b by (auto simp: near_def far_def)
    have pV: "p \<notin> V" using less.prems(5) b by auto
    note i1 = knn_inv_add[OF less.prems(4) pV]
    have dl: "p - first < lst - first" and dr: "lst - (p + 1) < lst - first"
      using b by simp_all
    have left_call: "\<exists>nb'. knn K (incr_wrap K I) S first p v nb0 = Some nb' \<and>
        m_n nb' = m_n nb0 \<and> knn_inv K S v (V0 \<union> {first ..< p}) nb'"
      if "knn_inv K S v V0 nb0" "V0 \<inter> {first ..< p} = {}" for nb0 V0
      using that by (intro less.hyps[OF dl pS(2) ll J])
    have right_call: "\<exists>nb'. knn K (incr_wrap K I) S (p + 1) lst v nb0 = Some nb' \<and>
        m_n nb' = m_n nb0 \<and> knn_inv K S v (V0 \<union> {p + 1 ..< lst}) nb'"
      if "knn_inv K S v V0 nb0" "V0 \<inter> {p + 1 ..< lst} = {}" for nb0 V0
      using that by (intro less.hyps[OF dr less.prems(1) lr J])
    have d1: "insert p V \<inter> near = {}"
      using less.prems(5) b by (auto simp: near_def)
    obtain nb2 where
      n2: "(if less_nth I v (S ! p)
            then knn K (incr_wrap K I) S first p v ?nb1
            else knn K (incr_wrap K I) S (p + 1) lst v ?nb1) = Some nb2"
      and m2: "m_n nb2 = m_n nb" and i2: "knn_inv K S v (insert p V \<union> near) nb2"
    proof (cases sl)
      case True
      with d1 have "insert p V \<inter> {first ..< p} = {}" by (simp add: near_def)
      from left_call[OF i1 this] True madd that show thesis
        by (auto simp: near_def sl_def)
    next
      case False
      with d1 have "insert p V \<inter> {p + 1 ..< lst} = {}" by (simp add: near_def)
      from right_call[OF i1 this] False madd that show thesis
        by (auto simp: near_def sl_def)
    qed
    have d2: "(insert p V \<union> near) \<inter> far = {}"
      using less.prems(5) b by (auto simp: near_def far_def)
    have tgt: "insert p V \<union> near \<union> far = V \<union> {first ..< lst}"
      unfolding split by blast
    note step = knn_many[OF 3 fp pv, of K v nb]
    show ?thesis
    proof (cases "\<bar>get I v - get I (S ! p)\<bar> \<le> max_key nb2")
      case True
      have "\<exists>nb'. (if less_nth I v (S ! p)
            then knn K (incr_wrap K I) S (p + 1) lst v nb2
            else knn K (incr_wrap K I) S first p v nb2) = Some nb' \<and>
          m_n nb' = m_n nb2 \<and> knn_inv K S v (insert p V \<union> near \<union> far) nb'"
      proof (cases sl)
        case sl: True
        with d2 have "(insert p V \<union> near) \<inter> {p + 1 ..< lst} = {}" by (simp add: far_def)
        from right_call[OF i2 this] sl show ?thesis
          by (simp add: far_def sl_def)
      next
        case sl: False
        with d2 have "(insert p V \<union> near) \<inter> {first ..< p} = {}" by (simp add: far_def)
        from left_call[OF i2 this] sl show ?thesis
          by (simp add: far_def sl_def)
      qed
      then obtain nb' where
        "(if less_nth I v (S ! p)
            then knn K (incr_wrap K I) S (p + 1) lst v nb2
            else knn K (incr_wrap K I) S first p v nb2) = Some nb'"
        "m_n nb' = m_n nb2" "knn_inv K S v (insert p V \<union> near \<union> far) nb'"
        by blast
      with step n2 True m2 tgt show ?thesis by simp
    next
      case False
      with step n2 have res: "knn K I S first lst v nb = Some nb2" by simp
      have full: "length (q nb2) = m_n nb2"
      proof (rule ccontr)
        assume "length (q nb2) \<noteq> m_n nb2"
        moreover from i2 have "length (q nb2) \<le> m_n nb2"
          by (simp add: knn_inv_def)
        ultimately have lt: "length (q nb2) < m_n nb2" by simp
        have "\<bar>get I v - get I (S ! p)\<bar> \<le> max_key nb2"
        proof (cases sl)
          case True
          with n2 have "knn K (incr_wrap K I) S first p v ?nb1 = Some nb2"
            by (simp add: sl_def)
          from knn_test_passes_when_not_full[OF less.prems(3) this lt] show ?thesis .
        next
          case False
          with n2 have "knn K (incr_wrap K I) S (p + 1) lst v ?nb1 = Some nb2"
            by (simp add: sl_def)
          from knn_test_passes_when_not_full[OF less.prems(3) this lt] show ?thesis .
        qed
        with False show False by simp
      qed
      have gap: "\<bar>get I v - get I (S ! p)\<bar> \<le> ?d j" if j: "j \<in> far" for j
      proof -
        have "\<bar>get I v - get I (S ! p)\<bar> \<le> \<bar>get I v - get I (S ! j)\<bar>"
        proof (cases sl)
          case True
          then have "get I v < get I (S ! p)" by (simp add: sl_def less_nth_def)
          moreover from True j R have "get I (S ! p) \<le> get I (S ! j)"
            by (simp add: far_def)
          ultimately show ?thesis by simp
        next
          case False
          then have "get I (S ! p) \<le> get I v" by (simp add: sl_def less_nth_def)
          moreover from False j L have "get I (S ! j) \<le> get I (S ! p)"
            by (simp add: far_def)
          ultimately show ?thesis by simp
        qed
        with axis_le_l2dist[OF less.prems(3), of v "S ! j"] show ?thesis by simp
      qed
      have beyond: "\<forall>j \<in> far. \<forall>i \<in> snd ` set (q nb2). ?d i \<le> ?d j"
      proof (intro ballI)
        fix j i assume j: "j \<in> far" and i: "i \<in> snd ` set (q nb2)"
        then obtain e where e: "e \<in> set (q nb2)" "snd e = i" by (metis imageE)
        then have ne: "q nb2 \<noteq> []" by auto
        from i2 e have "fst e = ?d i" by (simp add: knn_inv_def)
        moreover from pq_top_max[OF ne e(1)] ne have "fst e \<le> max_key nb2"
          by (simp add: max_key_def)
        ultimately show "?d i \<le> ?d j"
          using gap[OF j] False by simp
      qed
      have "finite far" by (simp add: far_def)
      from knn_inv_skip[OF i2 this full beyond] res m2 tgt show ?thesis
        by simp
    qed
  qed
qed

lemma copy_loop_mset:
  assumes "\<forall>e \<in> set qs. snd e < length S"
  shows "\<exists>out. copy_loop S qs = Some out \<and> mset out = mset (map (\<lambda>e. S ! snd e) qs)"
  using assms
proof (induction "length qs" arbitrary: qs rule: less_induct)
  case less
  show ?case
  proof (cases "qs = []")
    case True
    then show ?thesis by (subst copy_loop.simps) simp
  next
    case False
    let ?t = "pq_top qs"
    have tin: "?t \<in> set qs" using False by (rule pq_top_in)
    with less.prems have tv: "snd ?t < length S" by simp
    have "\<forall>e \<in> set (pq_pop qs). snd e < length S"
      using less.prems set_pq_pop[of qs] by blast
    from less.hyps[OF length_pq_pop[OF False] this] obtain out where
      out: "copy_loop S (pq_pop qs) = Some out"
        "mset out = mset (map (\<lambda>e. S ! snd e) (pq_pop qs))"
      by blast
    have c: "copy_loop S qs = Some (S ! snd ?t # out)"
      using False tv out(1) by (subst copy_loop.simps) (simp add: deref_def)
    have "mset qs = add_mset ?t (mset (remove1 ?t qs))"
      using tin by simp
    then have "image_mset (\<lambda>e. S ! snd e) (mset qs) =
        image_mset (\<lambda>e. S ! snd e) (add_mset ?t (mset (remove1 ?t qs)))"
      by (rule arg_cong)
    then have "mset (map (\<lambda>e. S ! snd e) qs) =
        add_mset (S ! snd ?t) (mset (map (\<lambda>e. S ! snd e) (pq_pop qs)))"
      by (simp add: pq_pop_def)
    with c out(2) show ?thesis by simp
  qed
qed

text \<open>
  With the layout that the descent relies on, \<open>kd_nearest_neighbors\<close> emits the elements
  at \<open>min(n, last - first)\<close> positions of the range, and no position left out is nearer
  to \<open>v\<close> than one of them: the distances emitted are the \<open>n\<close> smallest.
\<close>

lemma kd_nearest_neighbors_correct:
  assumes "lst \<le> length S" and "pivot_layout K 0 S first lst" and "0 < K"
  shows "\<exists>out P. kd_nearest_neighbors K S first lst v n = Some out \<and>
           P \<subseteq> {first ..< lst} \<and> card P = min n (lst - first) \<and>
           mset out = image_mset ((!) S) (mset_set P) \<and>
           (\<forall>i \<in> P. \<forall>j \<in> {first ..< lst} - P. l2dist K (S ! i) v \<le> l2dist K (S ! j) v)"
proof -
  have "knn_inv K S v {} (n_best_init n)"
    by (simp add: knn_inv_def n_best_init_def)
  from knn_correct_step[OF assms this] obtain nb where
    k: "knn K 0 S first lst v (n_best_init n) = Some nb" and m: "m_n nb = n"
    and inv: "knn_inv K S v {first ..< lst} nb"
    by (auto simp: n_best_init_def)
  let ?P = "snd ` set (q nb)"
  from inv have dis: "distinct (map snd (q nb))" and sub: "?P \<subseteq> {first ..< lst}"
    and len: "length (q nb) = min n (lst - first)"
    and best: "\<forall>i \<in> ?P. \<forall>j \<in> {first ..< lst} - ?P. l2dist K (S ! i) v \<le> l2dist K (S ! j) v"
    using m by (simp_all add: knn_inv_def)
  have "\<forall>e \<in> set (q nb). snd e < length S"
    using sub assms(1) by fastforce
  from copy_loop_mset[OF this] obtain out where
    out: "copy_loop S (q nb) = Some out" "mset out = mset (map (\<lambda>e. S ! snd e) (q nb))"
    by blast
  have res: "kd_nearest_neighbors K S first lst v n = Some out"
    using k out(1) by (simp add: kd_nearest_neighbors_def copy_def)
  have cP: "card ?P = min n (lst - first)"
    using dis len by (metis distinct_card length_map set_map)
  have "mset_set (set (map snd (q nb))) = mset (map snd (q nb))"
    using dis by (rule mset_set_set)
  then have "image_mset ((!) S) (mset_set ?P) = image_mset ((!) S) (mset (map snd (q nb)))"
    by (simp only: set_map)
  also have "\<dots> = mset (map (\<lambda>e. S ! snd e) (q nb))"
    by (simp add: multiset.map_comp comp_def)
  finally have "mset out = image_mset ((!) S) (mset_set ?P)"
    using out(2) by simp
  with res sub cP best show ?thesis by blast
qed

lemma kd_nearest_neighbors_after_kd_sort:
  assumes "kd_sort K 0 xs S" and "axis_distinct K xs" and "\<forall>x \<in> set xs. length x = K"
    and "0 < K"
  shows "\<exists>out P. kd_nearest_neighbors K S 0 (length S) v n = Some out \<and>
           P \<subseteq> {0 ..< length S} \<and> card P = min n (length S) \<and>
           mset out = image_mset ((!) S) (mset_set P) \<and>
           (\<forall>i \<in> P. \<forall>j \<in> {0 ..< length S} - P. l2dist K (S ! i) v \<le> l2dist K (S ! j) v)"
proof -
  from assms(2) have "distinct xs" by (simp add: axis_distinct_def)
  from kd_sort_spec_kd_order[OF assms(1) this assms(3,4)] have "spec_kd_order K 0 S" .
  then have s: "spec_kd_order K 0 (seg S 0 (length S))"
    by (simp add: seg_def)
  have ad: "axis_distinct K S"
    using axis_distinct_mset[OF kd_sort_mset[OF assms(1)] assms(2)] .
  have "pivot_layout K 0 S 0 (length S)"
    by (rule spec_kd_order_pivot_layout[OF order_refl s ad assms(4)])
  from kd_nearest_neighbors_correct[OF order_refl this assms(4), of v n] show ?thesis
    by simp
qed

end
